theory Spec2Isabelle
  imports Main
begin

section \<open>Data model (types.ts)\<close>

text \<open>
  JavaScript strings are modelled as \<^typ>\<open>string\<close>; the model therefore covers
  texts whose code units are below 256. Numbers used as array indices and depths are
  \<^typ>\<open>nat\<close> and \<^typ>\<open>int\<close>.
\<close>

datatype RiskLevel = Low | Medium | High | Critical

record CveInfo =
  cve_id :: string
  cve_summary :: string

record CweFinding =
  cweId :: string
  cweTitle :: string
  cwe_riskSummary :: string
  cves :: "CveInfo list"

record LicenseInfo =
  spdxId :: string
  complianceSummary :: string

record RiskAssessment =
  maintainerAnalysis :: string
  codeSecurityAnalysis :: string
  licenseAnalysis :: LicenseInfo
  vulnerabilityAnalysis :: "CweFinding list"
  riskLevel :: RiskLevel
  riskSummary :: string

record DiscoveredDependency =
  dep_name :: string
  dep_url :: string
  dep_discoverySource :: string

text \<open>
  \<open>DependencyNode\<close> is recursive, so it is a datatype with one constructor whose
  selectors are the fields of the interface.
\<close>

datatype DependencyNode = DependencyNode
  (name: string)
  (url: string)
  (discoverySource: string)
  (path: string)
  (level: int)
  (isLoading: bool)
  (isExpanded: bool)
  (dependencies: "DependencyNode list")
  (assessment: "RiskAssessment option")

text \<open>Errors thrown by the JavaScript runtime itself.\<close>

datatype js_error = TypeError

section \<open>Strings and numbers of the runtime\<close>

text \<open>
  The characters matched by \<open>\s\<close> in a regular expression and trimmed by the
  string-to-number conversion (tab, line feed, vertical tab, form feed, carriage return,
  space, no-break space), as far as they are below 256.
\<close>

definition js_space :: "char \<Rightarrow> bool" where
  "js_space c = (c \<in> set [CHR 0x09, CHR 0x0A, CHR 0x0B, CHR 0x0C, CHR 0x0D, CHR '' '', CHR 0xA0])"

definition js_trim :: "string \<Rightarrow> string" where
  "js_trim s = rev (dropWhile js_space (rev (dropWhile js_space s)))"

text \<open>
  \<open>s.split(sep)\<close> for a separator of one character: the pieces between the
  separators; never an empty list. \<open>xs.join(sep)\<close> puts them together again.
\<close>

fun js_split_acc :: "char \<Rightarrow> string \<Rightarrow> string \<Rightarrow> string list" where
  "js_split_acc sep acc [] = [rev acc]"
| "js_split_acc sep acc (c # cs) =
     (if c = sep then rev acc # js_split_acc sep [] cs else js_split_acc sep (c # acc) cs)"

definition js_split :: "char \<Rightarrow> string \<Rightarrow> string list" where
  "js_split sep s = js_split_acc sep [] s"

fun js_join :: "string \<Rightarrow> string list \<Rightarrow> string" where
  "js_join sep [] = []"
| "js_join sep [x] = x"
| "js_join sep (x # xs) = x @ sep @ js_join sep xs"

definition is_digit :: "char \<Rightarrow> bool" where
  "is_digit c = (c \<in> set ''0123456789'')"

definition digit_val :: "char \<Rightarrow> nat" where
  "digit_val c = of_char c - of_char CHR ''0''"

definition digit_char :: "nat \<Rightarrow> char" where
  "digit_char d = ''0123456789'' ! d"

definition dec_value :: "string \<Rightarrow> nat" where
  "dec_value s = foldl (\<lambda>acc c. 10 * acc + digit_val c) 0 s"

text \<open>
  \<open>Number(s)\<close> followed by its use as an array index. \<open>Some n\<close> is the index \<open>n\<close>;
  \<open>None\<close> is a number under which no array holds an element (\<open>NaN\<close>). The conversion
  trims white space, maps the empty string to 0 and a string of decimal digits to its
  value. Other numeric literals of JavaScript (sign, fraction, exponent, hexadecimal) are
  not modelled: they are mapped to \<open>None\<close> here. The theorems about arbitrary paths are
  stated on \<open>updateNodeByParts\<close> below, for every list of indices.
\<close>

definition Number_index :: "string \<Rightarrow> nat option" where
  "Number_index s =
     (let t = js_trim s
      in if list_all is_digit t then Some (dec_value t) else None)"

text \<open>The decimal text a template literal gives a non-negative integer.\<close>

fun string_of_nat :: "nat \<Rightarrow> string" where
  "string_of_nat n =
     (if n < 10 then [digit_char n] else string_of_nat (n div 10) @ [digit_char (n mod 10)])"

declare string_of_nat.simps [simp del]

section \<open>The dependency tree (App.tsx)\<close>

text \<open>\<open>xs[i]\<close> of JavaScript: \<open>None\<close> is \<open>undefined\<close>.\<close>

definition js_nth :: "'a list \<Rightarrow> nat option \<Rightarrow> 'a option" where
  "js_nth xs i = (case i of None \<Rightarrow> None | Some n \<Rightarrow> (if n < length xs then Some (xs ! n) else None))"

text \<open>
  \<open>updateNodeByPath\<close> after the path has been split. The loop of the source descends
  through all indices but the last, replacing \<open>currentLevel[index]\<close> by a copy whose
  child list is a copy; reading \<open>.dependencies\<close> of \<open>undefined\<close> throws a
  \<open>TypeError\<close>. At the last index the node is replaced by \<open>updater node\<close> when
  \<open>currentLevel[finalIndex]\<close> is there, and nothing happens otherwise. With no index
  at all, \<open>finalIndex\<close> is \<open>undefined\<close> and nothing happens.
\<close>

fun updateNodeByParts ::
  "DependencyNode list \<Rightarrow> nat option list \<Rightarrow> (DependencyNode \<Rightarrow> DependencyNode)
    \<Rightarrow> js_error + DependencyNode list" where
  "updateNodeByParts currentLevel [] updater = Inr currentLevel"
| "updateNodeByParts currentLevel [finalIndex] updater =
     (case js_nth currentLevel finalIndex of
        None \<Rightarrow> Inr currentLevel
      | Some node \<Rightarrow> Inr (currentLevel[the finalIndex := updater node]))"
| "updateNodeByParts currentLevel (index # rest) updater =
     (case js_nth currentLevel index of
        None \<Rightarrow> Inl TypeError
      | Some node \<Rightarrow>
          (case updateNodeByParts (dependencies node) rest updater of
             Inl e \<Rightarrow> Inl e
           | Inr deps \<Rightarrow>
               Inr (currentLevel[the index :=
                      DependencyNode (name node) (url node) (discoverySource node) (path node)
                        (level node) (isLoading node) (isExpanded node) deps (assessment node)])))"

definition updateNodeByPath ::
  "DependencyNode list \<Rightarrow> string \<Rightarrow> (DependencyNode \<Rightarrow> DependencyNode)
    \<Rightarrow> js_error + DependencyNode list" where
  "updateNodeByPath nodes p updater =
     updateNodeByParts nodes (map Number_index (js_split CHR ''-'' p)) updater"

text \<open>The updaters the handlers of \<open>App\<close> pass to \<open>updateNodeByPath\<close>.\<close>

definition toggleExpand_updater :: "DependencyNode \<Rightarrow> DependencyNode" where
  "toggleExpand_updater n =
     DependencyNode (name n) (url n) (discoverySource n) (path n) (level n) (isLoading n)
       (\<not> isExpanded n) (dependencies n) (assessment n)"

definition discoverStart_updater :: "DependencyNode \<Rightarrow> DependencyNode" where
  "discoverStart_updater n =
     DependencyNode (name n) (url n) (discoverySource n) (path n) (level n) True True
       (dependencies n) (assessment n)"

definition discoverDone_updater :: "DependencyNode list \<Rightarrow> DependencyNode \<Rightarrow> DependencyNode" where
  "discoverDone_updater childNodes n =
     DependencyNode (name n) (url n) (discoverySource n) (path n) (level n) False
       (isExpanded n) childNodes (assessment n)"

definition loading_updater :: "bool \<Rightarrow> DependencyNode \<Rightarrow> DependencyNode" where
  "loading_updater b n =
     DependencyNode (name n) (url n) (discoverySource n) (path n) (level n) b
       (isExpanded n) (dependencies n) (assessment n)"

definition analyzeDone_updater :: "RiskAssessment \<Rightarrow> DependencyNode \<Rightarrow> DependencyNode" where
  "analyzeDone_updater a n =
     DependencyNode (name n) (url n) (discoverySource n) (path n) (level n) False
       (isExpanded n) (dependencies n) (Some a)"

text \<open>
  The nodes \<open>handleInitialDiscover\<close> and \<open>handleDiscoverChildren\<close> build from
  the records of a discovery: \<open>dependencies.map((dep, index) => ...)\<close>.
\<close>

definition initialChildNodes :: "DiscoveredDependency list \<Rightarrow> DependencyNode list" where
  "initialChildNodes deps =
     map (\<lambda>(index, dep).
            DependencyNode (dep_name dep) (dep_url dep) (dep_discoverySource dep)
              (''0-'' @ string_of_nat index) 1 False False [] None)
         (enumerate 0 deps)"

definition topLevelNode :: "string \<Rightarrow> DiscoveredDependency list \<Rightarrow> DependencyNode" where
  "topLevelNode repoUrl deps =
     (let parts = js_split CHR ''/'' repoUrl
      in DependencyNode (js_join ''/'' (drop (length parts - 2) parts)) repoUrl
           ''Root Repository'' ''0'' 0 False True (initialChildNodes deps) None)"

definition childNodes :: "DependencyNode \<Rightarrow> DiscoveredDependency list \<Rightarrow> DependencyNode list" where
  "childNodes node deps =
     map (\<lambda>(index, dep).
            DependencyNode (dep_name dep) (dep_url dep) (dep_discoverySource dep)
              (path node @ ''-'' @ string_of_nat index) (level node + 1) False False [] None)
         (enumerate 0 deps)"

text \<open>
  The state changes of \<open>dependencyTree\<close> made through \<open>updateNodeByPath\<close>, one
  per call of \<open>setDependencyTree(prev => ...)\<close> in \<open>handleDiscoverChildren\<close>,
  \<open>handleAnalyzeNode\<close> and \<open>handleToggleExpand\<close>. Each carries the node the
  handler was called with; the discovery and the assessment are the results of the
  awaited calls.
\<close>

datatype tree_event =
  DiscoverChildrenStart DependencyNode
| DiscoverChildrenDone DependencyNode "DiscoveredDependency list"
| DiscoverChildrenFailed DependencyNode
| AnalyzeStart DependencyNode
| AnalyzeDone DependencyNode RiskAssessment
| AnalyzeFailed DependencyNode
| ToggleExpand DependencyNode

fun event_node :: "tree_event \<Rightarrow> DependencyNode" where
  "event_node (DiscoverChildrenStart node) = node"
| "event_node (DiscoverChildrenDone node deps) = node"
| "event_node (DiscoverChildrenFailed node) = node"
| "event_node (AnalyzeStart node) = node"
| "event_node (AnalyzeDone node a) = node"
| "event_node (AnalyzeFailed node) = node"
| "event_node (ToggleExpand node) = node"

fun event_updater :: "tree_event \<Rightarrow> DependencyNode \<Rightarrow> DependencyNode" where
  "event_updater (DiscoverChildrenStart node) = discoverStart_updater"
| "event_updater (DiscoverChildrenDone node deps) = discoverDone_updater (childNodes node deps)"
| "event_updater (DiscoverChildrenFailed node) = loading_updater False"
| "event_updater (AnalyzeStart node) = loading_updater True"
| "event_updater (AnalyzeDone node a) = analyzeDone_updater a"
| "event_updater (AnalyzeFailed node) = loading_updater False"
| "event_updater (ToggleExpand node) = toggleExpand_updater"

definition tree_step :: "DependencyNode list \<Rightarrow> tree_event \<Rightarrow> js_error + DependencyNode list" where
  "tree_step prev ev = updateNodeByPath prev (path (event_node ev)) (event_updater ev)"

text \<open>The node at a position: the indices from the top-level list downwards.\<close>

fun node_at :: "DependencyNode list \<Rightarrow> nat list \<Rightarrow> DependencyNode option" where
  "node_at ns [] = None"
| "node_at ns [i] = (if i < length ns then Some (ns ! i) else None)"
| "node_at ns (i # rest) =
     (if i < length ns then node_at (dependencies (ns ! i)) rest else None)"

text \<open>
  The trees \<open>dependencyTree\<close> can hold: empty at the start and while a discovery
  runs, the tree \<open>handleInitialDiscover\<close> builds, and every tree a handler's update
  makes of the current one. The handlers are called with a node of a tree that was
  rendered, which need not be the current one.
\<close>

inductive reachable :: "DependencyNode list \<Rightarrow> bool" where
  reachable_empty: "reachable []"
| reachable_initial: "reachable [topLevelNode repoUrl deps]"
| reachable_step:
    "reachable prev \<Longrightarrow> reachable rendered \<Longrightarrow> node_at rendered pos = Some (event_node ev)
      \<Longrightarrow> tree_step prev ev = Inr t \<Longrightarrow> reachable t"

text \<open>
  The addressing invariant: a top-level node at index \<open>i\<close> has the decimal text of
  \<open>i\<close> as its path and level 0; the child at index \<open>i\<close> of a node has the
  parent's path, a dash and the decimal text of \<open>i\<close> as its path, and the parent's
  level plus one. \<open>wf_nodes prefix l i ns\<close> says so of the nodes \<open>ns\<close> that stand
  from index \<open>i\<close> on in a list whose paths start with \<open>prefix\<close>.
\<close>

fun wf_node :: "string \<Rightarrow> int \<Rightarrow> DependencyNode \<Rightarrow> bool"
  and wf_nodes :: "string \<Rightarrow> int \<Rightarrow> nat \<Rightarrow> DependencyNode list \<Rightarrow> bool" where
  "wf_node p l (DependencyNode nm u src p' l' ld ex deps a) =
     (p' = p \<and> l' = l \<and> wf_nodes (p @ ''-'') (l + 1) 0 deps)"
| "wf_nodes prefix l i [] = True"
| "wf_nodes prefix l i (n # ns) =
     (wf_node (prefix @ string_of_nat i) l n \<and> wf_nodes prefix l (Suc i) ns)"

definition wf_forest :: "DependencyNode list \<Rightarrow> bool" where
  "wf_forest t = wf_nodes [] 0 0 t"

text \<open>A discovered record and the tree built from it, for the examples.\<close>

definition example_dep :: DiscoveredDependency where
  "example_dep =
     \<lparr>dep_name = ''LibA'', dep_url = ''https://github.com/a/LibA'',
      dep_discoverySource = ''Build Manifest''\<rparr>"

definition example_child :: DependencyNode where
  "example_child =
     DependencyNode ''LibA'' ''https://github.com/a/LibA'' ''Build Manifest'' ''0-0'' 1
       False False [] None"

definition example_tree :: "DependencyNode list" where
  "example_tree = [topLevelNode ''https://github.com/o/r'' [example_dep]]"

section \<open>Discovery (geminiService.ts)\<close>

subsection \<open>Strings\<close>

text \<open>
  \<open>toLowerCase\<close> on code units below 256: the letters A to Z and the upper-case
  letters of Latin-1 (0xC0 to 0xDE without the multiplication sign) have a lower-case
  partner, every other character is left as it is.
\<close>

definition lower_table :: "(char \<times> char) list" where
  "lower_table =
     [
      (CHR ''A'', CHR ''a''), (CHR ''B'', CHR ''b''), (CHR ''C'', CHR ''c''), (CHR ''D'', CHR ''d''),
      (CHR ''E'', CHR ''e''), (CHR ''F'', CHR ''f''), (CHR ''G'', CHR ''g''), (CHR ''H'', CHR ''h''),
      (CHR ''I'', CHR ''i''), (CHR ''J'', CHR ''j''), (CHR ''K'', CHR ''k''), (CHR ''L'', CHR ''l''),
      (CHR ''M'', CHR ''m''), (CHR ''N'', CHR ''n''), (CHR ''O'', CHR ''o''), (CHR ''P'', CHR ''p''),
      (CHR ''Q'', CHR ''q''), (CHR ''R'', CHR ''r''), (CHR ''S'', CHR ''s''), (CHR ''T'', CHR ''t''),
      (CHR ''U'', CHR ''u''), (CHR ''V'', CHR ''v''), (CHR ''W'', CHR ''w''), (CHR ''X'', CHR ''x''),
      (CHR ''Y'', CHR ''y''), (CHR ''Z'', CHR ''z''), (CHR 0xC0, CHR 0xE0), (CHR 0xC1, CHR 0xE1),
      (CHR 0xC2, CHR 0xE2), (CHR 0xC3, CHR 0xE3), (CHR 0xC4, CHR 0xE4), (CHR 0xC5, CHR 0xE5),
      (CHR 0xC6, CHR 0xE6), (CHR 0xC7, CHR 0xE7), (CHR 0xC8, CHR 0xE8), (CHR 0xC9, CHR 0xE9),
      (CHR 0xCA, CHR 0xEA), (CHR 0xCB, CHR 0xEB), (CHR 0xCC, CHR 0xEC), (CHR 0xCD, CHR 0xED),
      (CHR 0xCE, CHR 0xEE), (CHR 0xCF, CHR 0xEF), (CHR 0xD0, CHR 0xF0), (CHR 0xD1, CHR 0xF1),
      (CHR 0xD2, CHR 0xF2), (CHR 0xD3, CHR 0xF3), (CHR 0xD4, CHR 0xF4), (CHR 0xD5, CHR 0xF5),
      (CHR 0xD6, CHR 0xF6), (CHR 0xD8, CHR 0xF8), (CHR 0xD9, CHR 0xF9), (CHR 0xDA, CHR 0xFA),
      (CHR 0xDB, CHR 0xFB), (CHR 0xDC, CHR 0xFC), (CHR 0xDD, CHR 0xFD), (CHR 0xDE, CHR 0xFE)]"

definition lower_char :: "char \<Rightarrow> char" where
  "lower_char c = (case map_of lower_table c of None \<Rightarrow> c | Some d \<Rightarrow> d)"

definition toLowerCase :: "string \<Rightarrow> string" where
  "toLowerCase s = map lower_char s"

text \<open>\<open>s.substring(0, n)\<close> is \<open>take n s\<close>, \<open>xs.slice(i, j)\<close> is \<open>take (j - i) (drop i xs)\<close>.\<close>

definition starts_with :: "string \<Rightarrow> string \<Rightarrow> bool" where
  "starts_with pat s = (take (length pat) s = pat)"

definition ends_with :: "string \<Rightarrow> string \<Rightarrow> bool" where
  "ends_with pat s = (length pat \<le> length s \<and> drop (length s - length pat) s = pat)"

fun contains :: "string \<Rightarrow> string \<Rightarrow> bool" where
  "contains pat [] = (pat = [])"
| "contains pat (c # cs) = (starts_with pat (c # cs) \<or> contains pat cs)"

text \<open>
  The three tests on the paths of the file tree. The patterns carry the flag \<open>i\<close> and
  hold letters of ASCII only, so a path matches when its lower-cased text does.
  \<^item> \<open>/\.(h|hpp|c|cpp|ino)$/i\<close>
  \<^item> \<open>/(platformio\.ini|library\.json|makefile|cmakelists\.txt)/i\<close>
  \<^item> \<open>/^license/i\<close>
\<close>

definition isSourceFile :: "string \<Rightarrow> bool" where
  "isSourceFile p =
     list_ex (\<lambda>ext. ends_with ext (toLowerCase p)) [''.h'', ''.hpp'', ''.c'', ''.cpp'', ''.ino'']"

definition isManifest :: "string \<Rightarrow> bool" where
  "isManifest p =
     list_ex (\<lambda>nm. contains nm (toLowerCase p))
       [''platformio.ini'', ''library.json'', ''makefile'', ''cmakelists.txt'']"

definition isLicense :: "string \<Rightarrow> bool" where
  "isLicense p = starts_with ''license'' (toLowerCase p)"

subsection \<open>What a call can throw\<close>

text \<open>
  An \<open>Error\<close> of one of the kinds below, or a value that is no \<open>Error\<close>.
  \<open>throttledFetch\<close> throws the first three kinds; the other errors of
  \<open>githubService\<close> (invalid URL, file not found in the body, unusable encoding or
  content) are \<open>OtherFetchError\<close>. \<open>JsTypeError\<close> and \<open>JsSyntaxError\<close> are the
  \<open>TypeError\<close> and the \<open>SyntaxError\<close> of the runtime.
\<close>

datatype error_kind =
  RateLimited
| NotFound
| RequestFailed nat
| OtherFetchError
| ServiceError
| JsTypeError
| JsSyntaxError
| UnknownDiscoveryError

datatype thrown = Error error_kind | NonError

subsection \<open>Parsing a response\<close>

text \<open>
  \<open>parseGeminiJson\<close>: \<open>text.replace(/^```json\s*/, '').replace(/\s*```$/, '')\<close>,
  then \<open>JSON.parse\<close> inside \<open>try\<close>. The first pattern matches the seven characters of
  the opening marker at the start of the text and all white space after them. The second
  matches three backticks at the very end of the text and all white space before them.
  \<open>JSON.parse\<close> followed by the cast to the type asked for is a parameter. It throws
  (\<open>Inl\<close>, a \<open>SyntaxError\<close>), or gives \<open>null\<close> or another value that counts as
  false (\<open>Inr None\<close>), or gives a value that counts as true (\<open>Inr (Some v)\<close>). The
  handler of \<open>parseGeminiJson\<close> catches whatever the \<open>try\<close> block throws, logs it and
  returns \<open>null\<close>.
\<close>

definition fence_open :: string where
  "fence_open = [CHR 0x60, CHR 0x60, CHR 0x60, CHR ''j'', CHR ''s'', CHR ''o'', CHR ''n'']"

definition fence_close :: string where
  "fence_close = [CHR 0x60, CHR 0x60, CHR 0x60]"

definition strip_fence_open :: "string \<Rightarrow> string" where
  "strip_fence_open s =
     (if starts_with fence_open s then dropWhile js_space (drop (length fence_open) s) else s)"

definition strip_fence_close :: "string \<Rightarrow> string" where
  "strip_fence_close s =
     (if ends_with fence_close s
      then rev (dropWhile js_space (rev (take (length s - length fence_close) s)))
      else s)"

definition cleanedText :: "string \<Rightarrow> string" where
  "cleanedText s = strip_fence_close (strip_fence_open s)"

definition parseGeminiJson ::
  "(string \<Rightarrow> thrown + 'a option) \<Rightarrow> string \<Rightarrow> thrown + 'a option" where
  "parseGeminiJson JSON_parse s =
     (case JSON_parse (cleanedText s) of
        Inl e \<Rightarrow> Inr None
      | Inr v \<Rightarrow> Inr v)"

subsection \<open>The services a discovery calls\<close>


text \<open>
  An element of a parsed \<open>dependencies\<close> array as it is at run time. The cast of
  \<open>parseGeminiJson\<close> checks nothing, so the name need not be a string: \<open>None\<close> is a
  name that is missing or of another type. The URL is only copied.
\<close>

record ExtractedDependency =
  ex_name :: "string option"
  ex_url :: string

text \<open>The same with the label of the phase: \<open>{...d, discoverySource: ...}\<close>.\<close>

record UncheckedDependency =
  un_name :: "string option"
  un_url :: string
  un_discoverySource :: string

text \<open>
  A call of \<open>ai.models.generateContent\<close>. Each prompt is a fixed text around the values
  it is built from, and the schema is fixed per kind of call; a request is modelled by
  the kind and these values: the paths and contents of the manifests; the paths and the
  first 5000 characters of the source files of a batch and the keys found so far; the
  first 5000 characters of the license; name, URL and compilation date.
\<close>

datatype request =
  ManifestRequest "(string \<times> string) list"
| is_SourceScanRequest: SourceScanRequest "(string \<times> string) list" "string list"
| LicenseRequest string
| AssessmentRequest string string string

text \<open>The paths of the files a source-scan request covers.\<close>

fun request_paths :: "request \<Rightarrow> string list" where
  "request_paths (SourceScanRequest fileContents existingDeps) = map fst fileContents"
| "request_paths (ManifestRequest manifestContents) = []"
| "request_paths (LicenseRequest licenseText) = []"
| "request_paths (AssessmentRequest n u d) = []"

text \<open>
  The outside world of a run: the two functions of \<open>githubService\<close> a discovery
  calls (their results depend on the network), the extraction service, and
  \<open>JSON.parse\<close> at the four types \<open>parseGeminiJson\<close> is used at. A parsed answer
  to a manifest request is the toolchain text and the \<open>dependencies\<close>, a parsed answer to
  a source-scan request is the \<open>dependencies\<close>; these are \<open>None\<close> when the value is
  no array (calling \<open>.map\<close> on it throws a \<open>TypeError\<close>). The status callback only
  shows a text and is left out.
\<close>

record services =
  getRepoFileTree :: "string \<Rightarrow> thrown + string list"
  getFileContent :: "string \<Rightarrow> string \<Rightarrow> thrown + string"
  generateContent :: "request \<Rightarrow> thrown + string"
  JSON_parse_manifest :: "string \<Rightarrow> thrown + (string \<times> ExtractedDependency list option) option"
  JSON_parse_dependencies :: "string \<Rightarrow> thrown + ExtractedDependency list option option"
  JSON_parse_license :: "string \<Rightarrow> thrown + LicenseInfo option"
  JSON_parse_assessment :: "string \<Rightarrow> thrown + RiskAssessment option"

subsection \<open>The registry of found dependencies\<close>

text \<open>
  \<open>allDependencies\<close> is a \<open>Map\<close>: it keeps the order of insertion, so it is a list
  of pairs with distinct keys. \<open>addDependencies\<close> runs \<open>forEach\<close> over the records.
\<close>

type_synonym registry = "(string \<times> DiscoveredDependency) list"

definition has :: "registry \<Rightarrow> string \<Rightarrow> bool" where
  "has m k = (k \<in> set (map fst m))"

definition addDependency :: "registry \<Rightarrow> DiscoveredDependency \<Rightarrow> registry" where
  "addDependency m dep =
     (let key = toLowerCase (dep_name dep)
      in if \<not> has m key \<and> dep_name dep \<noteq> [] then m @ [(key, dep)] else m)"

definition addDependencies :: "registry \<Rightarrow> DiscoveredDependency list \<Rightarrow> registry" where
  "addDependencies m deps = foldl addDependency m deps"

definition keys_of :: "registry \<Rightarrow> string list" where
  "keys_of m = map fst m"

definition values_of :: "registry \<Rightarrow> DiscoveredDependency list" where
  "values_of m = map snd m"

text \<open>What the registry holds after the records \<open>ds\<close> were offered to the empty registry.\<close>

definition registry_of :: "DiscoveredDependency list \<Rightarrow> registry" where
  "registry_of ds = foldl addDependency [] ds"

definition withSource :: "string \<Rightarrow> ExtractedDependency \<Rightarrow> UncheckedDependency" where
  "withSource src d = \<lparr>un_name = ex_name d, un_url = ex_url d, un_discoverySource = src\<rparr>"

text \<open>
  \<open>addDependencies\<close> as it runs on the records of an answer: \<open>dep.name.toLowerCase()\<close>
  throws a \<open>TypeError\<close> at the first record whose name is no string; a record with a
  string as its name is added as above.
\<close>

definition checked :: "UncheckedDependency \<Rightarrow> DiscoveredDependency option" where
  "checked d =
     (case un_name d of
        None \<Rightarrow> None
      | Some n \<Rightarrow> Some \<lparr>dep_name = n, dep_url = un_url d, dep_discoverySource = un_discoverySource d\<rparr>)"

fun addDependencies_unchecked :: "registry \<Rightarrow> UncheckedDependency list \<Rightarrow> thrown + registry" where
  "addDependencies_unchecked m [] = Inr m"
| "addDependencies_unchecked m (d # ds) =
     (case checked d of
        None \<Rightarrow> Inl (Error JsTypeError)
      | Some dep \<Rightarrow> addDependencies_unchecked (addDependency m dep) ds)"

subsection \<open>The four phases\<close>

record discovery_state =
  allDependencies :: registry
  toolchainInfo :: string
  rootLicenseInfo :: "LicenseInfo option"

record InitialDiscoveryResult =
  res_dependencies :: "DiscoveredDependency list"
  res_toolchainInfo :: string
  res_rootLicenseInfo :: "LicenseInfo option"

text \<open>
  A step of a run gives the requests it sent to the extraction service, in order, and
  either what it threw or its result.
\<close>

type_synonym 'a run = "request list \<times> (thrown + 'a)"

definition then_run :: "'a run \<Rightarrow> ('a \<Rightarrow> 'b run) \<Rightarrow> 'b run" where
  "then_run r f =
     (case snd r of
        Inl e \<Rightarrow> (fst r, Inl e)
      | Inr a \<Rightarrow> (fst r @ fst (f a), snd (f a)))"

text \<open>
  \<open>Promise.all\<close> over the fetches of a list of paths: the contents in the order of the
  paths, or a rejection when one of the fetches rejects (the model takes the first in the
  order of the list).
\<close>

fun promise_all :: "(thrown + 'a) list \<Rightarrow> thrown + 'a list" where
  "promise_all [] = Inr []"
| "promise_all (x # xs) =
     (case x of
        Inl e \<Rightarrow> Inl e
      | Inr v \<Rightarrow> (case promise_all xs of Inl e \<Rightarrow> Inl e | Inr vs \<Rightarrow> Inr (v # vs)))"

definition fetchAll :: "services \<Rightarrow> string \<Rightarrow> string list \<Rightarrow> thrown + (string \<times> string) list" where
  "fetchAll env repoUrl paths =
     promise_all
       (map (\<lambda>p. case getFileContent env repoUrl p of Inl e \<Rightarrow> Inl e | Inr c \<Rightarrow> Inr (p, c)) paths)"

definition BATCH_SIZE :: nat where
  "BATCH_SIZE = 15"

definition sourceScanRequest :: "(string \<times> string) list \<Rightarrow> string list \<Rightarrow> request" where
  "sourceScanRequest fileContents existingDeps =
     SourceScanRequest (map (\<lambda>(p, c). (p, take 5000 c)) fileContents) existingDeps"

text \<open>
  \<open>analyzeSourceCodeBatch\<close>: no call for an empty batch; otherwise one call. The
  call, the parsing and \<open>result?.dependencies.map(...)\<close> stand in a \<open>try\<close> whose
  handler returns the empty list; \<open>null\<close> gives the empty list too. The records of a
  parsed array are returned as they are, with the label added.
\<close>

definition analyzeSourceCodeBatch ::
  "services \<Rightarrow> (string \<times> string) list \<Rightarrow> string list \<Rightarrow> request list \<times> UncheckedDependency list" where
  "analyzeSourceCodeBatch env fileContents existingDeps =
     (if fileContents = [] then ([], [])
      else
        ([sourceScanRequest fileContents existingDeps],
         (case generateContent env (sourceScanRequest fileContents existingDeps) of
            Inl e \<Rightarrow> []
          | Inr response \<Rightarrow>
              (case parseGeminiJson (JSON_parse_dependencies env) response of
                 Inl e \<Rightarrow> []
               | Inr None \<Rightarrow> []
               | Inr (Some None) \<Rightarrow> []
               | Inr (Some (Some ds)) \<Rightarrow> map (withSource ''Source Code Scan'') ds))))"

text \<open>
  Phase 2. Nothing here is caught before the outer handler: a failed fetch, a failed
  call, \<open>dependencies\<close> that is no array and a record without a string as its name all
  end the run. After a result that counts as false the state is left as it is.
\<close>

definition manifestPhase :: "services \<Rightarrow> string \<Rightarrow> string list \<Rightarrow> discovery_state \<Rightarrow> discovery_state run" where
  "manifestPhase env repoUrl manifestPaths st =
     (case fetchAll env repoUrl manifestPaths of
        Inl e \<Rightarrow> ([], Inl e)
      | Inr manifestContents \<Rightarrow>
          ([ManifestRequest manifestContents],
           (case generateContent env (ManifestRequest manifestContents) of
              Inl e \<Rightarrow> Inl e
            | Inr response \<Rightarrow>
                (case parseGeminiJson (JSON_parse_manifest env) response of
                   Inl e \<Rightarrow> Inl e
                 | Inr None \<Rightarrow> Inr st
                 | Inr (Some (info, None)) \<Rightarrow> Inl (Error JsTypeError)
                 | Inr (Some (info, Some ds)) \<Rightarrow>
                     (case addDependencies_unchecked (allDependencies st)
                             (map (withSource ''Build Manifest'') ds) of
                        Inl e \<Rightarrow> Inl e
                      | Inr m \<Rightarrow> Inr (st\<lparr>toolchainInfo := info, allDependencies := m\<rparr>))))))"

text \<open>
  Phase 3, the loop over \<open>i\<close>. The fetch of the files of a batch and
  \<open>addDependencies(foundDeps)\<close> stand outside the \<open>try\<close> of
  \<open>analyzeSourceCodeBatch\<close>: what they throw ends the loop.
\<close>

function sourceScanLoop ::
  "services \<Rightarrow> string \<Rightarrow> string list \<Rightarrow> nat \<Rightarrow> discovery_state \<Rightarrow> discovery_state run" where
  "sourceScanLoop env repoUrl sourceFilePaths i st =
     (if i < length sourceFilePaths then
        (case fetchAll env repoUrl (take BATCH_SIZE (drop i sourceFilePaths)) of
           Inl e \<Rightarrow> ([], Inl e)
         | Inr batchContents \<Rightarrow>
             (let found = analyzeSourceCodeBatch env batchContents (keys_of (allDependencies st))
              in case addDependencies_unchecked (allDependencies st) (snd found) of
                   Inl e \<Rightarrow> (fst found, Inl e)
                 | Inr m \<Rightarrow>
                     then_run (fst found, Inr (st\<lparr>allDependencies := m\<rparr>))
                       (sourceScanLoop env repoUrl sourceFilePaths (i + BATCH_SIZE))))
      else ([], Inr st))"
  by pat_completeness auto
termination
  by (relation "measure (\<lambda>(env, repoUrl, sourceFilePaths, i, st). length sourceFilePaths - i)")
    (auto simp: BATCH_SIZE_def)

declare sourceScanLoop.simps [simp del]

text \<open>Phase 4: \<open>rootLicenseInfo = parseGeminiJson(...) || undefined\<close>.\<close>

definition licensePhase :: "services \<Rightarrow> string \<Rightarrow> string \<Rightarrow> discovery_state \<Rightarrow> discovery_state run" where
  "licensePhase env repoUrl licensePath st =
     (case getFileContent env repoUrl licensePath of
        Inl e \<Rightarrow> ([], Inl e)
      | Inr licenseContent \<Rightarrow>
          ([LicenseRequest (take 5000 licenseContent)],
           (case generateContent env (LicenseRequest (take 5000 licenseContent)) of
              Inl e \<Rightarrow> Inl e
            | Inr response \<Rightarrow>
                (case parseGeminiJson (JSON_parse_license env) response of
                   Inl e \<Rightarrow> Inl e
                 | Inr info \<Rightarrow> Inr (st\<lparr>rootLicenseInfo := info\<rparr>)))))"

text \<open>The handler of the outer \<open>try\<close>: an \<open>Error\<close> is thrown again, anything else is replaced.\<close>

definition rethrow :: "thrown \<Rightarrow> thrown" where
  "rethrow err = (case err of Error k \<Rightarrow> Error k | NonError \<Rightarrow> Error UnknownDiscoveryError)"

definition initial_state :: discovery_state where
  "initial_state = \<lparr>allDependencies = [], toolchainInfo = ''Not determined.'', rootLicenseInfo = None\<rparr>"

definition discoveryPhases :: "services \<Rightarrow> string \<Rightarrow> discovery_state run" where
  "discoveryPhases env repoUrl =
     (case getRepoFileTree env repoUrl of
        Inl e \<Rightarrow> ([], Inl e)
      | Inr fileTree \<Rightarrow>
          (let sourceFilePaths = filter isSourceFile fileTree;
               manifestPaths = filter isManifest fileTree;
               licenseFile = find isLicense fileTree
           in then_run
                (then_run
                   (if manifestPaths \<noteq> [] then manifestPhase env repoUrl manifestPaths initial_state
                    else ([], Inr initial_state))
                   (\<lambda>st. if sourceFilePaths \<noteq> [] then sourceScanLoop env repoUrl sourceFilePaths 0 st
                         else ([], Inr st)))
                (\<lambda>st. case licenseFile of
                         None \<Rightarrow> ([], Inr st)
                       | Some f \<Rightarrow> licensePhase env repoUrl f st)))"

definition discoverDependencies :: "services \<Rightarrow> string \<Rightarrow> InitialDiscoveryResult run" where
  "discoverDependencies env repoUrl =
     (let r = discoveryPhases env repoUrl
      in (fst r,
          (case snd r of
             Inl e \<Rightarrow> Inl (rethrow e)
           | Inr st \<Rightarrow>
               Inr \<lparr>res_dependencies = values_of (allDependencies st),
                    res_toolchainInfo = toolchainInfo st,
                    res_rootLicenseInfo = rootLicenseInfo st\<rparr>)))"

subsection \<open>Assessment\<close>

definition fallbackAssessment :: RiskAssessment where
  "fallbackAssessment =
     \<lparr>maintainerAnalysis = ''Could not analyze maintainers.'',
      codeSecurityAnalysis = ''Could not perform code security analysis.'',
      licenseAnalysis =
        \<lparr>spdxId = ''Unknown'',
         complianceSummary = ''Failed to perform AI analysis on the license.''\<rparr>,
      vulnerabilityAnalysis = [],
      riskLevel = Critical,
      riskSummary = ''Failed to perform AI analysis. Treat with extreme caution.''\<rparr>"

text \<open>
  \<open>analyzeDependency\<close>: the call of the service is outside any \<open>try\<close>, so what it
  throws is thrown on; \<open>if (!assessment)\<close> gives the fallback assessment for an
  unparsable response.
\<close>

definition analyzeDependency ::
  "services \<Rightarrow> string \<Rightarrow> string \<Rightarrow> string \<Rightarrow> thrown + RiskAssessment" where
  "analyzeDependency env dependencyName dependencyUrl compilationDate =
     (case generateContent env (AssessmentRequest dependencyName dependencyUrl compilationDate) of
        Inl e \<Rightarrow> Inl e
      | Inr response \<Rightarrow>
          (case parseGeminiJson (JSON_parse_assessment env) response of
             Inl e \<Rightarrow> Inl e
           | Inr None \<Rightarrow> Inr fallbackAssessment
           | Inr (Some a) \<Rightarrow> Inr a))"

subsection \<open>Example runs\<close>

text \<open>The example of the specification, and two names that differ by a leading space.\<close>

definition foo_batches :: "DiscoveredDependency list list" where
  "foo_batches =
     [[\<lparr>dep_name = ''Foo'', dep_url = ''https://github.com/a/Foo'',
        dep_discoverySource = ''Source Code Scan''\<rparr>],
      [\<lparr>dep_name = ''foo'', dep_url = ''https://github.com/b/foo'',
        dep_discoverySource = ''Build Manifest''\<rparr>,
       \<lparr>dep_name = [], dep_url = ''https://github.com/c/none'',
        dep_discoverySource = ''Build Manifest''\<rparr>]]"

definition spaced_batches :: "DiscoveredDependency list list" where
  "spaced_batches =
     [[\<lparr>dep_name = '' Foo'', dep_url = ''https://github.com/a/Foo'',
        dep_discoverySource = ''Source Code Scan''\<rparr>],
      [\<lparr>dep_name = ''foo'', dep_url = ''https://github.com/b/foo'',
        dep_discoverySource = ''Build Manifest''\<rparr>]]"


text \<open>
  A repository with a manifest, one source file and a license. The manifest gives a
  library and a record with an empty name, the source scan gives a second library and the
  first one again in other letters.
\<close>

definition example_files :: "string list" where
  "example_files = [''platformio.ini'', ''src/main.cpp'', ''LICENSE'']"

definition example_services :: services where
  "example_services =
     \<lparr>getRepoFileTree = (\<lambda>repoUrl. Inr example_files),
      getFileContent = (\<lambda>repoUrl p. Inr (''content of '' @ p)),
      generateContent =
        (\<lambda>req. case req of
                  ManifestRequest fs \<Rightarrow> Inr ''manifest answer''
                | SourceScanRequest fs ex \<Rightarrow> Inr ''scan answer''
                | LicenseRequest t \<Rightarrow> Inr ''license answer''
                | AssessmentRequest n u d \<Rightarrow> Inr ''no answer''),
      JSON_parse_manifest =
        (\<lambda>s. if s = ''manifest answer''
              then Inr (Some (''PlatformIO'',
                         Some [\<lparr>ex_name = Some ''LibA'', ex_url = ''https://github.com/a/LibA''\<rparr>,
                               \<lparr>ex_name = Some [], ex_url = ''https://github.com/a/none''\<rparr>]))
              else Inl (Error JsSyntaxError)),
      JSON_parse_dependencies =
        (\<lambda>s. if s = ''scan answer''
              then Inr (Some (Some
                     [\<lparr>ex_name = Some ''liba'', ex_url = ''https://github.com/b/liba''\<rparr>,
                      \<lparr>ex_name = Some ''LibB'', ex_url = ''https://github.com/b/LibB''\<rparr>]))
              else Inl (Error JsSyntaxError)),
      JSON_parse_license =
        (\<lambda>s. if s = ''license answer''
              then Inr (Some \<lparr>spdxId = ''MIT'', complianceSummary = ''Permissive.''\<rparr>)
              else Inl (Error JsSyntaxError)),
      JSON_parse_assessment = (\<lambda>s. Inl (Error JsSyntaxError))\<rparr>"

text \<open>
  The same repository when no response can be parsed and the service fails on every
  source-scan request.
\<close>

definition degraded_services :: services where
  "degraded_services =
     \<lparr>getRepoFileTree = (\<lambda>repoUrl. Inr example_files),
      getFileContent = (\<lambda>repoUrl p. Inr (''content of '' @ p)),
      generateContent =
        (\<lambda>req. case req of
                  ManifestRequest fs \<Rightarrow> Inr ''no answer''
                | SourceScanRequest fs ex \<Rightarrow> Inl (Error ServiceError)
                | LicenseRequest t \<Rightarrow> Inr ''no answer''
                | AssessmentRequest n u d \<Rightarrow> Inr ''no answer''),
      JSON_parse_manifest = (\<lambda>s. Inl (Error JsSyntaxError)),
      JSON_parse_dependencies = (\<lambda>s. Inl (Error JsSyntaxError)),
      JSON_parse_license = (\<lambda>s. Inl (Error JsSyntaxError)),
      JSON_parse_assessment = (\<lambda>s. Inl (Error JsSyntaxError))\<rparr>"

text \<open>
  A repository of sixteen source files, and the same repository when the request for
  the first file is answered with the status 500.
\<close>

definition sixteen_files :: "string list" where
  "sixteen_files =
     [''a.c'', ''b.c'', ''c.c'', ''d.c'', ''e.c'', ''f.c'', ''g.c'', ''h.c'',
      ''i.c'', ''j.c'', ''k.c'', ''l.c'', ''m.c'', ''n.c'', ''o.c'', ''p.c'']"

definition sixteen_services :: services where
  "sixteen_services =
     example_services\<lparr>getRepoFileTree := (\<lambda>repoUrl. Inr sixteen_files)\<rparr>"

definition failing_services :: services where
  "failing_services =
     sixteen_services
       \<lparr>getFileContent :=
          (\<lambda>repoUrl p. if p = ''a.c'' then Inl (Error (RequestFailed 500))
                        else Inr (''content of '' @ p))\<rparr>"

definition example_url :: string where
  "example_url = ''https://github.com/o/r''"

text \<open>
  \<open>JSON.parse\<close> at the type of the empty object, on the texts that are \<open>{}\<close> between
  white space of JSON (space, tab, line feed, carriage return); every other text is taken
  as a syntax error.
\<close>

definition json_space :: "char \<Rightarrow> bool" where
  "json_space c = (c \<in> set [CHR '' '', CHR 0x09, CHR 0x0A, CHR 0x0D])"

definition empty_object_parse :: "string \<Rightarrow> thrown + unit option" where
  "empty_object_parse s =
     (if rev (dropWhile json_space (rev (dropWhile json_space s))) = ''{}'' then Inr (Some ())
      else Inl (Error JsSyntaxError))"

text \<open>
  The repository of sixteen source files when the answer to a source-scan request holds
  a record without a name.
\<close>

definition nameless_services :: services where
  "nameless_services =
     sixteen_services
       \<lparr>JSON_parse_dependencies :=
          (\<lambda>s. Inr (Some (Some [\<lparr>ex_name = None, ex_url = ''https://github.com/b/LibB''\<rparr>])))\<rparr>"

section \<open>The throttled fetcher (githubService.ts)\<close>

text \<open>
  \<open>throttledFetch\<close> runs on the event loop of JavaScript: a call runs without
  interruption up to its first \<open>await\<close>, and goes on, again without interruption, when
  the awaited promise is settled. The part before the request has two segments:
  \<^item> from the call to \<open>await delay(...)\<close>: it reads the clock and \<open>lastRequestTime\<close>,
    and either starts a timer for the missing time or goes on at once;
  \<^item> after the timer (or at once): it writes the clock to \<open>lastRequestTime\<close> and
    sends the request.
  The state is the variable \<open>lastRequestTime\<close> of the module, the timers that run (call
  and time at which the timer is due) and the requests sent so far (call and time). Times
  are milliseconds as \<open>Date.now()\<close> gives them.
\<close>

definition GITHUB_API_DELAY :: int where
  "GITHUB_API_DELAY = 300"

record fetcher =
  lastRequestTime :: int
  timers :: "(nat \<times> int) list"
  requests :: "(nat \<times> int) list"

text \<open>\<open>lastRequestTime = Date.now()\<close> and the call of \<open>fetch\<close>.\<close>

definition send_request :: "nat \<Rightarrow> int \<Rightarrow> fetcher \<Rightarrow> fetcher" where
  "send_request call now st = st\<lparr>lastRequestTime := now, requests := requests st @ [(call, now)]\<rparr>"

text \<open>The first segment of the call \<open>call\<close>, entered when the clock shows \<open>now\<close>.\<close>

definition throttledFetch_enter :: "nat \<Rightarrow> int \<Rightarrow> fetcher \<Rightarrow> fetcher" where
  "throttledFetch_enter call now st =
     (let timeSinceLastRequest = now - lastRequestTime st
      in if timeSinceLastRequest < GITHUB_API_DELAY
         then st\<lparr>timers := timers st @ [(call, now + (GITHUB_API_DELAY - timeSinceLastRequest))]\<rparr>
         else send_request call now st)"

text \<open>
  The second segment of the call \<open>call\<close>, when its timer has fired and the clock shows
  \<open>now\<close>. A timer does not fire before it is due; \<open>None\<close> is a step that cannot happen.
\<close>

definition throttledFetch_resume :: "nat \<Rightarrow> int \<Rightarrow> fetcher \<Rightarrow> fetcher option" where
  "throttledFetch_resume call now st =
     (case map_of (timers st) call of
        None \<Rightarrow> None
      | Some due \<Rightarrow>
          if now < due then None
          else Some (send_request call now (st\<lparr>timers := filter (\<lambda>(c, d). c \<noteq> call) (timers st)\<rparr>)))"

datatype fetch_event = Enter nat int | Resume nat int

fun fetcher_step :: "fetcher \<Rightarrow> fetch_event \<Rightarrow> fetcher option" where
  "fetcher_step st (Enter call now) = Some (throttledFetch_enter call now st)"
| "fetcher_step st (Resume call now) = throttledFetch_resume call now st"

fun fetcher_run :: "fetcher \<Rightarrow> fetch_event list \<Rightarrow> fetcher option" where
  "fetcher_run st [] = Some st"
| "fetcher_run st (ev # evs) =
     (case fetcher_step st ev of None \<Rightarrow> None | Some st' \<Rightarrow> fetcher_run st' evs)"

text \<open>
  A fetcher whose last request was sent long ago, and the three calls
  \<open>Promise.all\<close> starts for a batch of three files, all entered at the time 1000; the
  timers of the second and the third call fire at the time 1300.
\<close>

definition idle_fetcher :: fetcher where
  "idle_fetcher = \<lparr>lastRequestTime = 0, timers = [], requests = []\<rparr>"

definition three_concurrent_calls :: "fetch_event list" where
  "three_concurrent_calls = [Enter 1 1000, Enter 2 1000, Enter 3 1000, Resume 2 1300, Resume 3 1300]"

section \<open>The tree as objects and arrays\<close>

text \<open>
  Sharing and mutation are not visible on the values of the tree, so
  \<open>updateNodeByPath\<close> is modelled a second time, on a store of objects. A node object
  holds its fields and the address of its \<open>dependencies\<close> array; an array holds the
  addresses of node objects. Every \<open>[...xs]\<close> and every object literal of the source
  allocates, at the address \<open>next_addr\<close>; \<open>currentLevel[index] = ...\<close> writes into an
  array that is there.
\<close>

type_synonym addr = nat

record node_obj =
  o_name :: string
  o_url :: string
  o_discoverySource :: string
  o_path :: string
  o_level :: int
  o_isLoading :: bool
  o_isExpanded :: bool
  o_dependencies :: addr
  o_assessment :: "RiskAssessment option"

record heap =
  node_cells :: "addr \<Rightarrow> node_obj option"
  array_cells :: "addr \<Rightarrow> addr list option"
  next_addr :: addr

definition alloc_array :: "heap \<Rightarrow> addr list \<Rightarrow> heap" where
  "alloc_array h xs =
     h\<lparr>array_cells := (array_cells h)(next_addr h \<mapsto> xs), next_addr := Suc (next_addr h)\<rparr>"

definition alloc_node :: "heap \<Rightarrow> node_obj \<Rightarrow> heap" where
  "alloc_node h n =
     h\<lparr>node_cells := (node_cells h)(next_addr h \<mapsto> n), next_addr := Suc (next_addr h)\<rparr>"

definition array_store :: "heap \<Rightarrow> addr \<Rightarrow> nat \<Rightarrow> addr \<Rightarrow> heap" where
  "array_store h a i v =
     (case array_cells h a of
        None \<Rightarrow> h
      | Some xs \<Rightarrow> h\<lparr>array_cells := (array_cells h)(a \<mapsto> xs[i := v])\<rparr>)"

text \<open>
  The loop and the last step of \<open>updateNodeByPath\<close>, with \<open>currentLevel\<close> the
  address of an array. The updaters of \<open>App\<close> are object literals that spread the node
  they are given: they read it, change nothing, and allocate the one object they return;
  \<open>updater\<close> gives the fields of that object. An address that holds no object does not
  occur in the heaps considered below; reading through it is modelled as a
  \<open>TypeError\<close>.
\<close>

fun update_walk ::
  "heap \<Rightarrow> addr \<Rightarrow> nat option list \<Rightarrow> (node_obj \<Rightarrow> node_obj) \<Rightarrow> js_error + heap" where
  "update_walk h currentLevel [] updater = Inr h"
| "update_walk h currentLevel [finalIndex] updater =
     (case array_cells h currentLevel of
        None \<Rightarrow> Inl TypeError
      | Some xs \<Rightarrow>
          (case js_nth xs finalIndex of
             None \<Rightarrow> Inr h
           | Some r \<Rightarrow>
               (case node_cells h r of
                  None \<Rightarrow> Inl TypeError
                | Some node \<Rightarrow>
                    Inr (array_store (alloc_node h (updater node)) currentLevel (the finalIndex)
                           (next_addr h)))))"
| "update_walk h currentLevel (index # rest) updater =
     (case array_cells h currentLevel of
        None \<Rightarrow> Inl TypeError
      | Some xs \<Rightarrow>
          (case js_nth xs index of
             None \<Rightarrow> Inl TypeError
           | Some r \<Rightarrow>
               (case node_cells h r of
                  None \<Rightarrow> Inl TypeError
                | Some node \<Rightarrow>
                    (case array_cells h (o_dependencies node) of
                       None \<Rightarrow> Inl TypeError
                     | Some ds \<Rightarrow>
                         (let newDeps = next_addr h;
                              h1 = alloc_array h ds;
                              newNode = next_addr h1;
                              h2 = alloc_node h1 (node\<lparr>o_dependencies := newDeps\<rparr>);
                              h3 = array_store h2 currentLevel (the index) newNode
                          in update_walk h3 newDeps rest updater)))))"

text \<open>
  \<open>updateNodeByPath\<close> on the array at \<open>nodes\<close>: \<open>newNodes = [...nodes]\<close> is
  allocated, the walk starts on it, and its address is returned with the new heap.
\<close>

definition updateNodeByParts_heap ::
  "heap \<Rightarrow> addr \<Rightarrow> nat option list \<Rightarrow> (node_obj \<Rightarrow> node_obj) \<Rightarrow> js_error + heap \<times> addr" where
  "updateNodeByParts_heap h nodes pathParts updater =
     (case array_cells h nodes of
        None \<Rightarrow> Inl TypeError
      | Some xs \<Rightarrow>
          (case update_walk (alloc_array h xs) (next_addr h) pathParts updater of
             Inl e \<Rightarrow> Inl e
           | Inr h' \<Rightarrow> Inr (h', next_addr h)))"

definition updateNodeByPath_heap ::
  "heap \<Rightarrow> addr \<Rightarrow> string \<Rightarrow> (node_obj \<Rightarrow> node_obj) \<Rightarrow> js_error + heap \<times> addr" where
  "updateNodeByPath_heap h nodes p updater =
     updateNodeByParts_heap h nodes (map Number_index (js_split CHR ''-'' p)) updater"

text \<open>The address of the node at a position, read from the array at \<open>arr\<close>.\<close>

fun addr_at :: "heap \<Rightarrow> addr \<Rightarrow> nat list \<Rightarrow> addr option" where
  "addr_at h arr [] = None"
| "addr_at h arr [i] =
     (case array_cells h arr of None \<Rightarrow> None | Some xs \<Rightarrow> js_nth xs (Some i))"
| "addr_at h arr (i # q) =
     (case array_cells h arr of
        None \<Rightarrow> None
      | Some xs \<Rightarrow>
          (case js_nth xs (Some i) of
             None \<Rightarrow> None
           | Some r \<Rightarrow>
               (case node_cells h r of None \<Rightarrow> None | Some n \<Rightarrow> addr_at h (o_dependencies n) q)))"

text \<open>
  A position lies beside a path when it leaves the path at some index: it is neither the
  target, nor one of its ancestors, nor below the target.
\<close>

fun beside :: "nat option list \<Rightarrow> nat list \<Rightarrow> bool" where
  "beside [] q = False"
| "beside (p # ps) [] = False"
| "beside (p # ps) (i # q) = (p \<noteq> Some i \<or> beside ps q)"

text \<open>A position lies below the target of a path when the path is a proper start of it.\<close>

fun below :: "nat option list \<Rightarrow> nat list \<Rightarrow> bool" where
  "below [] q = (q \<noteq> [])"
| "below (p # ps) [] = False"
| "below (p # ps) (i # q) = (p = Some i \<and> below ps q)"

text \<open>
  The objects below the address \<open>N\<close> refer to objects below \<open>N\<close> only. For \<open>N\<close> the
  next free address this says that nothing refers to an object that is not yet there.
\<close>

definition closed_below :: "addr \<Rightarrow> heap \<Rightarrow> bool" where
  "closed_below N h =
     (\<forall>a<N. (\<forall>xs. array_cells h a = Some xs \<longrightarrow> (\<forall>r\<in>set xs. r < N))
           \<and> (\<forall>n. node_cells h a = Some n \<longrightarrow> o_dependencies n < N))"

definition same_below :: "addr \<Rightarrow> heap \<Rightarrow> heap \<Rightarrow> bool" where
  "same_below N h h' =
     (\<forall>a<N. array_cells h' a = array_cells h a \<and> node_cells h' a = node_cells h a)"

text \<open>
  The heap after one turn of the loop: the copy of the child list, the copy of the node and
  the write of the copy into \<open>currentLevel\<close>.
\<close>

definition descend :: "heap \<Rightarrow> addr \<Rightarrow> nat \<Rightarrow> node_obj \<Rightarrow> addr list \<Rightarrow> heap" where
  "descend h cur k node ds =
     array_store (alloc_node (alloc_array h ds) (node\<lparr>o_dependencies := next_addr h\<rparr>)) cur k
       (Suc (next_addr h))"

text \<open>The updater of \<open>handleToggleExpand\<close> on an object.\<close>

definition toggleExpand_obj :: "node_obj \<Rightarrow> node_obj" where
  "toggleExpand_obj n = n\<lparr>o_isExpanded := \<not> o_isExpanded n\<rparr>"

text \<open>
  A heap holding the tree of a repository with two dependencies: the top-level array at
  address 0, the root object at 1, its child list at 2, the children at 3 and 4 and their
  empty child lists at 5 and 6.
\<close>

definition example_obj :: "string \<Rightarrow> string \<Rightarrow> int \<Rightarrow> bool \<Rightarrow> addr \<Rightarrow> node_obj" where
  "example_obj nm p l e d =
     \<lparr>o_name = nm, o_url = ''https://github.com/'' @ nm, o_discoverySource = ''platformio.ini'',
      o_path = p, o_level = l, o_isLoading = False, o_isExpanded = e, o_dependencies = d,
      o_assessment = None\<rparr>"

definition example_heap :: heap where
  "example_heap =
     \<lparr>node_cells = [1 \<mapsto> example_obj ''o/r'' ''0'' 0 True 2,
                    3 \<mapsto> example_obj ''a/a'' ''0-0'' 1 False 5,
                    4 \<mapsto> example_obj ''b/b'' ''0-1'' 1 False 6],
      array_cells = [0 \<mapsto> [1], 2 \<mapsto> [3, 4], 5 \<mapsto> [], 6 \<mapsto> []],
      next_addr = 7\<rparr>"

section \<open>Decimal texts and splitting\<close>

lemma digit_char_is_digit: "d < 10 \<Longrightarrow> is_digit (digit_char d)"
proof -
  assume "d < 10"
  then have "d \<in> {0,1,2,3,4,5,6,7,8,9}" by auto
  then show ?thesis by (auto simp: is_digit_def digit_char_def)
qed

lemma digit_val_digit_char: "d < 10 \<Longrightarrow> digit_val (digit_char d) = d"
proof -
  assume "d < 10"
  then have "d \<in> {0,1,2,3,4,5,6,7,8,9}" by auto
  then show ?thesis by (auto simp: digit_val_def digit_char_def)
qed

lemma is_digit_not_space: "is_digit c \<Longrightarrow> \<not> js_space c"
  by (auto simp: is_digit_def js_space_def)

lemma is_digit_not_dash: "is_digit c \<Longrightarrow> c \<noteq> CHR ''-''"
  by (auto simp: is_digit_def)

lemma string_of_nat_digits: "list_all is_digit (string_of_nat n)"
proof (induction n rule: string_of_nat.induct)
  case (1 n)
  show ?case
  proof (cases "n < 10")
    case True
    then show ?thesis by (subst string_of_nat.simps) (simp add: digit_char_is_digit)
  next
    case False
    with 1 show ?thesis by (subst string_of_nat.simps) (simp add: digit_char_is_digit)
  qed
qed

lemma string_of_nat_nonempty: "string_of_nat n \<noteq> []"
  by (subst string_of_nat.simps) simp

lemma dec_value_snoc: "dec_value (s @ [c]) = 10 * dec_value s + digit_val c"
  by (simp add: dec_value_def)

lemma dec_value_string_of_nat: "dec_value (string_of_nat n) = n"
proof (induction n rule: string_of_nat.induct)
  case (1 n)
  show ?case
  proof (cases "n < 10")
    case True
    then show ?thesis
      by (subst string_of_nat.simps) (simp add: dec_value_def digit_val_digit_char)
  next
    case False
    with 1 show ?thesis
      by (subst string_of_nat.simps) (simp add: dec_value_snoc digit_val_digit_char)
  qed
qed

lemma dropWhile_digits: "list_all is_digit s \<Longrightarrow> dropWhile js_space s = s"
  by (cases s) (auto simp: is_digit_not_space)

lemma js_trim_digits: "list_all is_digit s \<Longrightarrow> js_trim s = s"
proof -
  assume d: "list_all is_digit s"
  then have "list_all is_digit (rev s)" by (simp add: list_all_iff)
  then show ?thesis using d by (simp add: js_trim_def dropWhile_digits)
qed

lemma Number_index_string_of_nat: "Number_index (string_of_nat n) = Some n"
  by (simp add: Number_index_def js_trim_digits string_of_nat_digits dec_value_string_of_nat)

lemma js_split_acc_nosep:
  "sep \<notin> set s \<Longrightarrow> js_split_acc sep acc s = [rev acc @ s]"
  by (induction s arbitrary: acc) auto

lemma js_split_acc_sep:
  "sep \<notin> set s \<Longrightarrow> js_split_acc sep acc (s @ sep # rest) = (rev acc @ s) # js_split_acc sep [] rest"
  by (induction s arbitrary: acc) auto

lemma string_of_nat_no_dash: "CHR ''-'' \<notin> set (string_of_nat n)"
  using string_of_nat_digits [of n] is_digit_not_dash by (auto simp: list_all_iff)

lemma js_split_join_positions:
  "pos \<noteq> [] \<Longrightarrow> js_split CHR ''-'' (js_join ''-'' (map string_of_nat pos)) = map string_of_nat pos"
proof (induction pos rule: induct_list012)
  case 1
  then show ?case by simp
next
  case (2 x)
  then show ?case by (simp add: js_split_def js_split_acc_nosep string_of_nat_no_dash)
next
  case (3 x y zs)
  then show ?case
    using js_split_acc_sep [of "CHR ''-''" "string_of_nat x" "[]"]
    by (simp add: js_split_def string_of_nat_no_dash)
qed

section \<open>Stale paths\<close>

lemma updateNodeByParts_final_missing:
  "js_nth nodes i = None \<Longrightarrow> updateNodeByParts nodes [i] updater = Inr nodes"
  by simp

text \<open>
  C1. A path that does not resolve must leave the tree unchanged and must not throw, also
  when an index before the last is out of range. The source guards only the last index:
  on the empty tree (as \<open>handleInitialDiscover\<close> leaves it while a new discovery runs)
  the stale path \<open>0-0\<close> of a node of the previous tree makes the loop read
  \<open>currentLevel[0].dependencies\<close> of \<open>undefined\<close>, and the call throws.
\<close>

theorem updateNodeByPath_stale_inner_index_throws:
  "updateNodeByPath [] ''0-0'' toggleExpand_updater = Inl TypeError"
  by (simp add: updateNodeByPath_def js_split_def Number_index_def js_trim_def js_space_def
      is_digit_def dec_value_def digit_val_def js_nth_def)

section \<open>Paths and levels\<close>

lemma wf_node_iff:
  "wf_node p l n \<longleftrightarrow> path n = p \<and> level n = l \<and> wf_nodes (p @ ''-'') (l + 1) 0 (dependencies n)"
  by (cases n) auto

lemma wf_nodes_nth:
  "wf_nodes prefix l i ns \<Longrightarrow> k < length ns \<Longrightarrow> wf_node (prefix @ string_of_nat (i + k)) l (ns ! k)"
proof (induction ns arbitrary: i k)
  case Nil
  then show ?case by simp
next
  case (Cons n ns)
  show ?case
  proof (cases k)
    case 0
    with Cons.prems show ?thesis by simp
  next
    case (Suc j)
    with Cons.prems Cons.IH [of "Suc i" j] show ?thesis by simp
  qed
qed

lemma wf_nodes_update:
  "wf_nodes prefix l i ns \<Longrightarrow> k < length ns \<Longrightarrow> wf_node (prefix @ string_of_nat (i + k)) l n'
    \<Longrightarrow> wf_nodes prefix l i (ns[k := n'])"
proof (induction ns arbitrary: i k)
  case Nil
  then show ?case by simp
next
  case (Cons n ns)
  show ?case
  proof (cases k)
    case 0
    with Cons.prems show ?thesis by simp
  next
    case (Suc j)
    with Cons.prems Cons.IH [of "Suc i" j] show ?thesis by simp
  qed
qed

lemma js_nth_Some: "js_nth xs i = Some x \<longleftrightarrow> (\<exists>k. i = Some k \<and> k < length xs \<and> x = xs ! k)"
  by (auto simp: js_nth_def split: option.splits)

lemma updateNodeByParts_wf:
  "wf_nodes prefix l 0 cur \<Longrightarrow> updateNodeByParts cur parts upd = Inr cur'
    \<Longrightarrow> (\<And>n. wf_node (prefix @ js_join ''-'' (map (\<lambda>i. string_of_nat (the i)) parts))
                (l + int (length parts) - 1) n
          \<Longrightarrow> wf_node (prefix @ js_join ''-'' (map (\<lambda>i. string_of_nat (the i)) parts))
                (l + int (length parts) - 1) (upd n))
    \<Longrightarrow> wf_nodes prefix l 0 cur'"
proof (induction cur parts upd arbitrary: prefix l cur' rule: updateNodeByParts.induct)
  case (1 currentLevel updater)
  then show ?case by simp
next
  case (2 currentLevel finalIndex updater)
  show ?case
  proof (cases "js_nth currentLevel finalIndex")
    case None
    with 2 show ?thesis by simp
  next
    case (Some node)
    then obtain k where k: "finalIndex = Some k" "k < length currentLevel" "node = currentLevel ! k"
      by (auto simp: js_nth_Some)
    have "wf_node (prefix @ string_of_nat k) l node"
      using wf_nodes_nth [OF "2.prems"(1) k(2)] k(3) by simp
    then have "wf_node (prefix @ string_of_nat k) l (updater node)"
      using "2.prems"(3) [of node] k(1) by simp
    then have "wf_nodes prefix l 0 (currentLevel[k := updater node])"
      using wf_nodes_update [OF "2.prems"(1) k(2)] by simp
    with "2.prems"(2) Some k(1) show ?thesis by auto
  qed
next
  case (3 currentLevel index v va updater)
  from "3.prems"(2) obtain node where node: "js_nth currentLevel index = Some node"
    by (auto split: option.splits)
  then obtain k where k: "index = Some k" "k < length currentLevel" "node = currentLevel ! k"
    by (auto simp: js_nth_Some)
  from "3.prems"(2) node obtain deps where
    deps: "updateNodeByParts (dependencies node) (v # va) updater = Inr deps"
    and res: "cur' = currentLevel[k :=
                      DependencyNode (name node) (url node) (discoverySource node) (path node)
                        (level node) (isLoading node) (isExpanded node) deps (assessment node)]"
    using k(1) by (auto split: sum.splits)
  have wfn: "wf_node (prefix @ string_of_nat k) l node"
    using wf_nodes_nth [OF "3.prems"(1) k(2)] k(3) by simp
  then have wfd: "wf_nodes ((prefix @ string_of_nat k) @ ''-'') (l + 1) 0 (dependencies node)"
    by (simp add: wf_node_iff)
  have "wf_nodes ((prefix @ string_of_nat k) @ ''-'') (l + 1) 0 deps"
  proof (rule "3.IH" [OF node wfd deps])
    fix n
    assume "wf_node (((prefix @ string_of_nat k) @ ''-'') @ js_join ''-'' (map (\<lambda>i. string_of_nat (the i)) (v # va)))
              (l + 1 + int (length (v # va)) - 1) n"
    then have "wf_node (prefix @ js_join ''-'' (map (\<lambda>i. string_of_nat (the i)) (index # v # va)))
              (l + int (length (index # v # va)) - 1) n"
      using k(1) by simp
    from "3.prems"(3) [OF this]
    show "wf_node (((prefix @ string_of_nat k) @ ''-'') @ js_join ''-'' (map (\<lambda>i. string_of_nat (the i)) (v # va)))
              (l + 1 + int (length (v # va)) - 1) (updater n)"
      using k(1) by simp
  qed
  then have "wf_node (prefix @ string_of_nat k) l
       (DependencyNode (name node) (url node) (discoverySource node) (path node)
                        (level node) (isLoading node) (isExpanded node) deps (assessment node))"
    using wfn by (simp add: wf_node_iff)
  then show ?case
    using wf_nodes_update [OF "3.prems"(1) k(2)] res by simp
qed

lemma node_at_wf:
  "wf_nodes prefix l 0 ns \<Longrightarrow> node_at ns pos = Some n
    \<Longrightarrow> path n = prefix @ js_join ''-'' (map string_of_nat pos) \<and> level n = l + int (length pos) - 1
        \<and> wf_node (path n) (level n) n"
proof (induction ns pos arbitrary: prefix l rule: node_at.induct)
  case (1 ns)
  then show ?case by simp
next
  case (2 ns i)
  then have i: "i < length ns" "n = ns ! i" by (auto split: if_splits)
  from wf_nodes_nth [OF "2.prems"(1) i(1)] i(2) show ?case by (simp add: wf_node_iff)
next
  case (3 ns i v va)
  then have i: "i < length ns" and at: "node_at (dependencies (ns ! i)) (v # va) = Some n"
    by (auto split: if_splits)
  from wf_nodes_nth [OF "3.prems"(1) i]
  have "wf_nodes ((prefix @ string_of_nat i) @ ''-'') (l + 1) 0 (dependencies (ns ! i))"
    by (simp add: wf_node_iff)
  from "3.IH" [OF i this at] show ?case by auto
qed

lemma wf_nodes_fresh_children:
  "wf_nodes prefix l i
     (map (\<lambda>(index, dep).
            DependencyNode (dep_name dep) (dep_url dep) (dep_discoverySource dep)
              (prefix @ string_of_nat index) l False False [] None)
         (enumerate i deps))"
  by (induction deps arbitrary: i) auto

lemma wf_childNodes: "wf_nodes (path node @ ''-'') (level node + 1) 0 (childNodes node deps)"
  using wf_nodes_fresh_children [of "path node @ ''-''" "level node + 1" 0 deps]
  by (simp add: childNodes_def)

lemma wf_initialChildNodes: "wf_nodes ''0-'' 1 0 (initialChildNodes deps)"
  using wf_nodes_fresh_children [of "''0-''" 1 0 deps]
  by (simp add: initialChildNodes_def)

lemma string_of_nat_0: "string_of_nat 0 = ''0''"
  by (subst string_of_nat.simps) (simp add: digit_char_def)

lemma wf_topLevelNode: "wf_forest [topLevelNode repoUrl deps]"
  using wf_initialChildNodes [of deps]
  by (simp add: wf_forest_def topLevelNode_def Let_def string_of_nat_0)

lemma event_updater_wf:
  "path (event_node ev) = p \<Longrightarrow> level (event_node ev) = l \<Longrightarrow> wf_node p l n
    \<Longrightarrow> wf_node p l (event_updater ev n)"
  by (cases ev)
    (auto simp: wf_node_iff discoverStart_updater_def discoverDone_updater_def loading_updater_def
      analyzeDone_updater_def toggleExpand_updater_def wf_childNodes)

lemma node_at_nonempty: "node_at ns pos = Some n \<Longrightarrow> pos \<noteq> []"
  by auto

lemma tree_step_wf:
  assumes prev: "wf_forest prev" and rendered: "wf_forest rendered"
    and at: "node_at rendered pos = Some (event_node ev)"
    and step: "tree_step prev ev = Inr t"
  shows "wf_forest t"
proof -
  let ?node = "event_node ev"
  from node_at_wf [OF rendered [unfolded wf_forest_def] at]
  have p: "path ?node = js_join ''-'' (map string_of_nat pos)"
    and l: "level ?node = int (length pos) - 1" by simp_all
  have ne: "pos \<noteq> []" using at by auto
  have parts: "map Number_index (js_split CHR ''-'' (path ?node)) = map Some pos"
    by (simp add: p js_split_join_positions [OF ne] Number_index_string_of_nat comp_def)
  have enc: "js_join ''-'' (map (\<lambda>i. string_of_nat (the i)) (map Some pos)) = path ?node"
    by (simp add: p comp_def)
  from step have upd: "updateNodeByParts prev (map Some pos) (event_updater ev) = Inr t"
    by (simp add: tree_step_def updateNodeByPath_def parts)
  show ?thesis
    unfolding wf_forest_def
  proof (rule updateNodeByParts_wf [OF prev [unfolded wf_forest_def] upd])
    fix n
    assume "wf_node ([] @ js_join ''-'' (map (\<lambda>i. string_of_nat (the i)) (map Some pos)))
              (0 + int (length (map Some pos)) - 1) n"
    then have "wf_node (path ?node) (level ?node) n" using enc l by simp
    then have "wf_node (path ?node) (level ?node) (event_updater ev n)"
      by (rule event_updater_wf [OF refl refl])
    then show "wf_node ([] @ js_join ''-'' (map (\<lambda>i. string_of_nat (the i)) (map Some pos)))
              (0 + int (length (map Some pos)) - 1) (event_updater ev n)"
      using enc l by simp
  qed
qed

lemma reachable_wf: "reachable t \<Longrightarrow> wf_forest t"
proof (induction rule: reachable.induct)
  case reachable_empty
  then show ?case by (simp add: wf_forest_def)
next
  case (reachable_initial repoUrl deps)
  then show ?case by (rule wf_topLevelNode)
next
  case (reachable_step prev rendered pos ev t)
  then show ?case using tree_step_wf by blast
qed

lemma updateNodeByParts_length:
  "updateNodeByParts cur parts upd = Inr cur' \<Longrightarrow> length cur' = length cur"
  by (induction cur parts upd rule: updateNodeByParts.induct)
    (auto split: option.splits sum.splits)

lemma reachable_length: "reachable t \<Longrightarrow> length t \<le> 1"
proof (induction rule: reachable.induct)
  case (reachable_step prev rendered pos ev t)
  then show ?case
    using updateNodeByParts_length by (fastforce simp: tree_step_def updateNodeByPath_def)
qed simp_all

lemma js_join_snoc: "xs \<noteq> [] \<Longrightarrow> js_join sep (xs @ [x]) = js_join sep xs @ sep @ x"
  by (induction xs rule: induct_list012) auto

lemma childNodes_nth:
  "i < length deps \<Longrightarrow>
     path (childNodes node deps ! i) = path node @ ''-'' @ string_of_nat i
     \<and> level (childNodes node deps ! i) = level node + 1"
  by (simp add: childNodes_def nth_enumerate_eq)

lemma initialChildNodes_nth:
  "i < length deps \<Longrightarrow>
     path (initialChildNodes deps ! i) = ''0-'' @ string_of_nat i
     \<and> level (initialChildNodes deps ! i) = 1"
  by (simp add: initialChildNodes_def nth_enumerate_eq)

text \<open>
  C8. The root is built with path \<open>0\<close> and level 0, and every child node is built with
  the path of its parent, a dash and its index, and with the level of its parent plus one
  (\<open>topLevelNode\<close>, \<open>childNodes\<close>). In every tree the application can hold, the
  top-level node and every child carry exactly these values, and an update made by
  \<open>handleToggleExpand\<close>, \<open>handleAnalyzeNode\<close> or \<open>handleDiscoverChildren\<close>,
  called with a node of any rendered tree, leaves the path and the level of the node at
  every position as they were.
\<close>

theorem paths_and_levels_fixed_at_construction:
  assumes "reachable t"
  shows "(path (topLevelNode repoUrl deps) = ''0'' \<and> level (topLevelNode repoUrl deps) = 0)
    \<and> (\<forall>i. i < length deps \<longrightarrow>
          path (dependencies (topLevelNode repoUrl deps) ! i) = ''0'' @ ''-'' @ string_of_nat i
          \<and> level (dependencies (topLevelNode repoUrl deps) ! i) = 0 + 1)
    \<and> (\<forall>i. i < length deps \<longrightarrow>
          path (childNodes node deps ! i) = path node @ ''-'' @ string_of_nat i
          \<and> level (childNodes node deps ! i) = level node + 1)
    \<and> (\<forall>i r. node_at t [i] = Some r \<longrightarrow> i = 0 \<and> path r = ''0'' \<and> level r = 0)
    \<and> (\<forall>pos i p c. node_at t pos = Some p \<and> node_at t (pos @ [i]) = Some c \<longrightarrow>
          path c = path p @ ''-'' @ string_of_nat i \<and> level c = level p + 1)
    \<and> (\<forall>rendered q ev t' pos a b.
          reachable rendered \<and> node_at rendered q = Some (event_node ev)
          \<and> tree_step t ev = Inr t' \<and> node_at t pos = Some a \<and> node_at t' pos = Some b \<longrightarrow>
          path b = path a \<and> level b = level a)"
proof -
  have wf: "wf_nodes [] 0 0 t"
    using reachable_wf [OF assms] by (simp add: wf_forest_def)
  have c1: "path (topLevelNode repoUrl deps) = ''0'' \<and> level (topLevelNode repoUrl deps) = 0"
    by (simp add: topLevelNode_def Let_def)
  have c2: "\<forall>i. i < length deps \<longrightarrow>
          path (dependencies (topLevelNode repoUrl deps) ! i) = ''0'' @ ''-'' @ string_of_nat i
          \<and> level (dependencies (topLevelNode repoUrl deps) ! i) = 0 + 1"
    using initialChildNodes_nth [of _ deps] by (simp add: topLevelNode_def Let_def)
  have c3: "\<forall>i. i < length deps \<longrightarrow>
          path (childNodes node deps ! i) = path node @ ''-'' @ string_of_nat i
          \<and> level (childNodes node deps ! i) = level node + 1"
    using childNodes_nth by blast
  have c4: "\<forall>i r. node_at t [i] = Some r \<longrightarrow> i = 0 \<and> path r = ''0'' \<and> level r = 0"
  proof (intro allI impI)
    fix i r
    assume at: "node_at t [i] = Some r"
    then have "i < length t" by (auto split: if_splits)
    with reachable_length [OF assms] have i: "i = 0" by simp
    from node_at_wf [OF wf at] i show "i = 0 \<and> path r = ''0'' \<and> level r = 0"
      by (simp add: string_of_nat_0)
  qed
  have c5: "\<forall>pos i p c. node_at t pos = Some p \<and> node_at t (pos @ [i]) = Some c \<longrightarrow>
          path c = path p @ ''-'' @ string_of_nat i \<and> level c = level p + 1"
  proof (intro allI impI, elim conjE)
    fix pos i p c
    assume p: "node_at t pos = Some p" and c: "node_at t (pos @ [i]) = Some c"
    have ne: "pos \<noteq> []" using p by auto
    from node_at_wf [OF wf p] node_at_wf [OF wf c] js_join_snoc [of "map string_of_nat pos" "''-''" "string_of_nat i"] ne
    show "path c = path p @ ''-'' @ string_of_nat i \<and> level c = level p + 1"
      by simp
  qed
  have c6: "\<forall>rendered q ev t' pos a b.
          reachable rendered \<and> node_at rendered q = Some (event_node ev)
          \<and> tree_step t ev = Inr t' \<and> node_at t pos = Some a \<and> node_at t' pos = Some b \<longrightarrow>
          path b = path a \<and> level b = level a"
  proof (intro allI impI, elim conjE)
    fix rendered q ev t' pos a b
    assume r: "reachable rendered" and q: "node_at rendered q = Some (event_node ev)"
      and step: "tree_step t ev = Inr t'" and a: "node_at t pos = Some a"
      and b: "node_at t' pos = Some b"
    have "wf_forest t'"
      using tree_step_wf [OF reachable_wf [OF assms] reachable_wf [OF r] q step] .
    then have wf': "wf_nodes [] 0 0 t'" by (simp add: wf_forest_def)
    from node_at_wf [OF wf a] node_at_wf [OF wf' b]
    show "path b = path a \<and> level b = level a" by simp
  qed
  from c1 c2 c3 c4 c5 c6 show ?thesis by blast
qed

lemma example_tree_eq:
  "example_tree =
     [DependencyNode ''o/r'' ''https://github.com/o/r'' ''Root Repository'' ''0'' 0 False True
        [example_child] None]"
  by (simp add: example_tree_def topLevelNode_def initialChildNodes_def example_dep_def
      example_child_def js_split_def string_of_nat_0)

lemma example_tree_discover_children:
  "tree_step example_tree (DiscoverChildrenDone example_child [example_dep]) =
     Inr [DependencyNode ''o/r'' ''https://github.com/o/r'' ''Root Repository'' ''0'' 0 False True
        [DependencyNode ''LibA'' ''https://github.com/a/LibA'' ''Build Manifest'' ''0-0'' 1
           False False
           [DependencyNode ''LibA'' ''https://github.com/a/LibA'' ''Build Manifest'' ''0-0-0'' 2
              False False [] None]
           None]
        None]"
  by (simp add: example_tree_eq tree_step_def updateNodeByPath_def js_split_def
      Number_index_def js_trim_def js_space_def is_digit_def dec_value_def digit_val_def
      js_nth_def discoverDone_updater_def childNodes_def example_child_def example_dep_def
      string_of_nat_0)

theorem paths_and_levels_fixed_at_construction_witness:
  "reachable example_tree
   \<and> node_at example_tree [0] = Some (hd example_tree)
   \<and> node_at example_tree [0, 0] = Some example_child
   \<and> path example_child = path (hd example_tree) @ ''-'' @ string_of_nat 0
   \<and> level example_child = level (hd example_tree) + 1
   \<and> (\<exists>t'. tree_step example_tree (DiscoverChildrenDone example_child [example_dep]) = Inr t'
         \<and> (\<exists>b. node_at t' [0, 0] = Some b \<and> path b = path example_child
               \<and> level b = level example_child))"
proof -
  have r: "reachable example_tree"
    unfolding example_tree_def by (rule reachable_initial)
  note main = paths_and_levels_fixed_at_construction [OF r, of "''https://github.com/o/r''" "[]" example_child]
  have n0: "node_at example_tree [0] = Some (hd example_tree)"
    by (simp add: example_tree_eq)
  have n00: "node_at example_tree ([0] @ [0]) = Some example_child"
    by (simp add: example_tree_eq)
  from main n0 n00
  have pc: "path example_child = path (hd example_tree) @ ''-'' @ string_of_nat 0
      \<and> level example_child = level (hd example_tree) + 1"
    by blast
  obtain t' where step: "tree_step example_tree (DiscoverChildrenDone example_child [example_dep]) = Inr t'"
    using example_tree_discover_children by blast
  then obtain b where b: "node_at t' [0, 0] = Some b"
    by (auto simp: example_tree_discover_children)
  have ev: "node_at example_tree [0, 0] = Some (event_node (DiscoverChildrenDone example_child [example_dep]))"
    using n00 by simp
  from main r ev step n00 b
  have "path b = path example_child \<and> level b = level example_child"
    by (metis append_Cons append_Nil)
  with r n0 n00 pc step b show ?thesis by auto
qed

section \<open>The registry: first discovery wins\<close>

lemma toLowerCase_empty_iff: "toLowerCase s = [] \<longleftrightarrow> s = []"
  by (simp add: toLowerCase_def)

lemma find_snoc:
  "find P (xs @ [x]) = (case find P xs of None \<Rightarrow> (if P x then Some x else None) | Some y \<Rightarrow> Some y)"
  by (induction xs) auto

lemma find_None_iff2: "find P xs = None \<longleftrightarrow> (\<forall>x\<in>set xs. \<not> P x)"
  by (induction xs) auto

lemma addDependencies_concat:
  "foldl addDependencies m batches = foldl addDependency m (concat batches)"
  by (induction batches arbitrary: m) (simp_all add: addDependencies_def)

lemma registry_of_snoc: "registry_of (ds @ [d]) = addDependency (registry_of ds) d"
  by (simp add: registry_of_def)

lemma registry_of_props:
  "distinct (map fst (registry_of ds))
   \<and> set (map fst (registry_of ds)) = (\<lambda>d. toLowerCase (dep_name d)) ` {d \<in> set ds. dep_name d \<noteq> []}
   \<and> (\<forall>(k, r) \<in> set (registry_of ds).
        k = toLowerCase (dep_name r) \<and> dep_name r \<noteq> []
        \<and> find (\<lambda>d. toLowerCase (dep_name d) = k) ds = Some r)"
proof (induction ds rule: rev_induct)
  case Nil
  then show ?case by (simp add: registry_of_def)
next
  case (snoc d ds)
  let ?m = "registry_of ds"
  let ?key = "\<lambda>d. toLowerCase (dep_name d)"
  from snoc have dist: "distinct (map fst ?m)"
    and keys: "set (map fst ?m) = ?key ` {d \<in> set ds. dep_name d \<noteq> []}"
    and ent: "\<And>k r. (k, r) \<in> set ?m \<Longrightarrow>
        k = ?key r \<and> dep_name r \<noteq> [] \<and> find (\<lambda>d. ?key d = k) ds = Some r"
    by auto
  show ?case
  proof (cases "\<not> has ?m (?key d) \<and> dep_name d \<noteq> []")
    case False
    then have same: "registry_of (ds @ [d]) = ?m"
      by (auto simp: registry_of_snoc addDependency_def)
    have k2: "?key ` {x \<in> set (ds @ [d]). dep_name x \<noteq> []} = ?key ` {x \<in> set ds. dep_name x \<noteq> []}"
    proof (cases "dep_name d = []")
      case True
      then show ?thesis by auto
    next
      case False
      with \<open>\<not> (\<not> has ?m (?key d) \<and> dep_name d \<noteq> [])\<close> have "?key d \<in> set (map fst ?m)"
        by (simp add: has_def)
      with keys False show ?thesis by auto
    qed
    have "\<forall>(k, r) \<in> set ?m. k = ?key r \<and> dep_name r \<noteq> []
            \<and> find (\<lambda>x. ?key x = k) (ds @ [d]) = Some r"
      using ent by (auto simp: find_snoc)
    with dist keys k2 same show ?thesis by simp
  next
    case True
    then have new: "registry_of (ds @ [d]) = ?m @ [(?key d, d)]"
      by (simp add: registry_of_snoc addDependency_def)
    from True have notin: "?key d \<notin> set (map fst ?m)" and ne: "dep_name d \<noteq> []"
      by (simp_all add: has_def)
    have none: "find (\<lambda>x. ?key x = ?key d) ds = None"
    proof -
      have "\<forall>x\<in>set ds. ?key x \<noteq> ?key d"
      proof
        fix x assume x: "x \<in> set ds"
        show "?key x \<noteq> ?key d"
        proof
          assume eq: "?key x = ?key d"
          with ne have "dep_name x \<noteq> []" by (auto simp: toLowerCase_def)
          with x keys have "?key x \<in> set (map fst ?m)" by blast
          with eq notin show False by simp
        qed
      qed
      then show ?thesis by (simp add: find_None_iff2)
    qed
    have d1: "distinct (map fst (?m @ [(?key d, d)]))"
      using dist notin by simp
    have d2: "set (map fst (?m @ [(?key d, d)])) = ?key ` {x \<in> set (ds @ [d]). dep_name x \<noteq> []}"
      using keys ne by auto
    have d3: "\<forall>(k, r) \<in> set (?m @ [(?key d, d)]). k = ?key r \<and> dep_name r \<noteq> []
            \<and> find (\<lambda>x. ?key x = k) (ds @ [d]) = Some r"
      using ent ne none by (auto simp: find_snoc)
    from d1 d2 d3 new show ?thesis by simp
  qed
qed

lemma registry_of_keys:
  "map fst (registry_of ds) = map (\<lambda>d. toLowerCase (dep_name d)) (values_of (registry_of ds))"
  using registry_of_props [of ds] by (auto simp: values_of_def)

text \<open>
  C3 (as amended). The key of a record is its lower-cased name, not trimmed. After any
  sequence of additions the final list holds exactly one record per key among the added
  records with a non-empty name, and that record is the first record added with this key:
  later records with a key that is there are dropped, and records with an empty name are
  never added.
\<close>

theorem first_discovery_wins:
  "distinct (map (\<lambda>d. toLowerCase (dep_name d)) (values_of (foldl addDependencies [] batches)))
   \<and> set (map (\<lambda>d. toLowerCase (dep_name d)) (values_of (foldl addDependencies [] batches)))
       = (\<lambda>d. toLowerCase (dep_name d)) ` {d \<in> set (concat batches). dep_name d \<noteq> []}
   \<and> (\<forall>r \<in> set (values_of (foldl addDependencies [] batches)).
         dep_name r \<noteq> []
         \<and> find (\<lambda>d. toLowerCase (dep_name d) = toLowerCase (dep_name r)) (concat batches) = Some r)"
proof -
  let ?ds = "concat batches"
  have eq: "foldl addDependencies [] batches = registry_of ?ds"
    by (simp add: addDependencies_concat registry_of_def)
  note p = registry_of_props [of ?ds]
  have k: "map (\<lambda>d. toLowerCase (dep_name d)) (values_of (registry_of ?ds)) = map fst (registry_of ?ds)"
    by (simp add: registry_of_keys)
  have a: "distinct (map (\<lambda>d. toLowerCase (dep_name d)) (values_of (registry_of ?ds)))"
    using p k by simp
  have b: "set (map (\<lambda>d. toLowerCase (dep_name d)) (values_of (registry_of ?ds)))
       = (\<lambda>d. toLowerCase (dep_name d)) ` {d \<in> set ?ds. dep_name d \<noteq> []}"
    using p k by simp
  have c: "\<forall>r \<in> set (values_of (registry_of ?ds)).
         dep_name r \<noteq> []
         \<and> find (\<lambda>d. toLowerCase (dep_name d) = toLowerCase (dep_name r)) ?ds = Some r"
    using p by (fastforce simp: values_of_def)
  from a b c show ?thesis unfolding eq by blast
qed

lemma toLowerCase_foo:
  "toLowerCase ''Foo'' = ''foo''" "toLowerCase ''foo'' = ''foo''" "toLowerCase '' Foo'' = '' foo''"
  by (simp_all add: toLowerCase_def lower_char_def lower_table_def)

lemma foo_registry:
  "values_of (foldl addDependencies [] foo_batches) =
     [\<lparr>dep_name = ''Foo'', dep_url = ''https://github.com/a/Foo'',
       dep_discoverySource = ''Source Code Scan''\<rparr>]"
  by (simp add: foo_batches_def addDependencies_def addDependency_def has_def values_of_def
      toLowerCase_foo Let_def)

text \<open>The example of the specification: \<open>Foo\<close> from the source scan, then \<open>foo\<close> from a manifest.\<close>

theorem first_discovery_wins_witness:
  "values_of (foldl addDependencies [] foo_batches) =
     [\<lparr>dep_name = ''Foo'', dep_url = ''https://github.com/a/Foo'',
       dep_discoverySource = ''Source Code Scan''\<rparr>]
   \<and> find (\<lambda>d. toLowerCase (dep_name d) = toLowerCase ''Foo'') (concat foo_batches) =
       Some \<lparr>dep_name = ''Foo'', dep_url = ''https://github.com/a/Foo'',
             dep_discoverySource = ''Source Code Scan''\<rparr>
   \<and> distinct (map (\<lambda>d. toLowerCase (dep_name d)) (values_of (foldl addDependencies [] foo_batches)))"
  using first_discovery_wins [of foo_batches] by (simp add: foo_registry)

text \<open>
  C3 as stated fails: the names \<open>" Foo"\<close> and \<open>"foo"\<close> have the same lower-cased
  trimmed name, and both records are kept.
\<close>

theorem untrimmed_names_kept_apart:
  "map dep_name (values_of (foldl addDependencies [] spaced_batches)) = ['' Foo'', ''foo'']
   \<and> map (\<lambda>d. toLowerCase (js_trim (dep_name d)))
        (values_of (foldl addDependencies [] spaced_batches)) = [''foo'', ''foo'']
   \<and> \<not> distinct (map (\<lambda>d. toLowerCase (js_trim (dep_name d)))
                   (values_of (foldl addDependencies [] spaced_batches)))"
  by (simp add: spaced_batches_def addDependencies_def addDependency_def has_def values_of_def
      toLowerCase_foo js_trim_def js_space_def Let_def)

section \<open>Discovery: registry invariants\<close>

lemma then_run_Inr:
  "snd (then_run r f) = Inr b \<longleftrightarrow> (\<exists>a. snd r = Inr a \<and> snd (f a) = Inr b)"
  by (auto simp: then_run_def split: sum.splits)


lemma parseGeminiJson_returns: "\<exists>r. parseGeminiJson JSON_parse s = Inr r"
  by (simp add: parseGeminiJson_def split: sum.splits)

lemma checked_Some:
  "checked d = Some dep \<Longrightarrow> un_name d = Some (dep_name dep)
     \<and> dep_discoverySource dep = un_discoverySource d \<and> dep_url dep = un_url d"
  by (auto simp: checked_def split: option.splits)

lemma addDependencies_unchecked_inv:
  assumes step: "\<And>m dep. I m \<Longrightarrow> J dep \<Longrightarrow> I (addDependency m dep)"
  shows "I m \<Longrightarrow> \<forall>d\<in>set ds. \<forall>dep. checked d = Some dep \<longrightarrow> J dep
    \<Longrightarrow> addDependencies_unchecked m ds = Inr m' \<Longrightarrow> I m'"
proof (induction ds arbitrary: m)
  case Nil
  then show ?case by simp
next
  case (Cons d ds)
  from Cons.prems(3) obtain dep where dep: "checked d = Some dep"
    and rest: "addDependencies_unchecked (addDependency m dep) ds = Inr m'"
    by (auto split: option.splits)
  from Cons.prems(2) dep have "J dep" by simp
  from step [OF Cons.prems(1) this] have "I (addDependency m dep)" .
  from Cons.IH [OF this _ rest] Cons.prems(2) show ?case by simp
qed

lemma analyzeSourceCodeBatch_source:
  "\<forall>d\<in>set (snd (analyzeSourceCodeBatch env cs ex)). un_discoverySource d = ''Source Code Scan''"
  by (auto simp: analyzeSourceCodeBatch_def withSource_def split: sum.splits option.splits)

lemma sourceScanLoop_registry:
  assumes step: "\<And>m dep. I m \<Longrightarrow> dep_discoverySource dep = ''Source Code Scan''
      \<Longrightarrow> I (addDependency m dep)"
  shows "I (allDependencies st) \<Longrightarrow> snd (sourceScanLoop env repoUrl paths i st) = Inr st'
    \<Longrightarrow> I (allDependencies st') \<and> toolchainInfo st' = toolchainInfo st
        \<and> rootLicenseInfo st' = rootLicenseInfo st"
proof (induction env repoUrl paths i st rule: sourceScanLoop.induct)
  case (1 env repoUrl sourceFilePaths i st)
  show ?case
  proof (cases "i < length sourceFilePaths")
    case False
    with "1.prems" show ?thesis by (simp add: sourceScanLoop.simps)
  next
    case True
    from "1.prems"(2) True obtain batchContents where
      fetch: "fetchAll env repoUrl (take BATCH_SIZE (drop i sourceFilePaths)) = Inr batchContents"
      by (subst (asm) sourceScanLoop.simps) (auto split: sum.splits)
    let ?found = "analyzeSourceCodeBatch env batchContents (keys_of (allDependencies st))"
    from "1.prems"(2) True fetch obtain m where
      add: "addDependencies_unchecked (allDependencies st) (snd ?found) = Inr m"
      by (subst (asm) sourceScanLoop.simps) (auto simp: Let_def split: sum.splits)
    let ?st = "st\<lparr>allDependencies := m\<rparr>"
    from "1.prems"(2) True fetch add
    have rest: "snd (sourceScanLoop env repoUrl sourceFilePaths (i + BATCH_SIZE) ?st) = Inr st'"
      by (subst (asm) sourceScanLoop.simps) (simp add: Let_def then_run_Inr)
    have "\<forall>d\<in>set (snd ?found). \<forall>dep. checked d = Some dep
        \<longrightarrow> dep_discoverySource dep = ''Source Code Scan''"
      using analyzeSourceCodeBatch_source [of env batchContents "keys_of (allDependencies st)"]
      by (auto dest: checked_Some)
    from addDependencies_unchecked_inv [of I "\<lambda>dep. dep_discoverySource dep = ''Source Code Scan''",
        OF step "1.prems"(1) this add]
    have "I (allDependencies ?st)" by simp
    from "1.IH" [OF True fetch refl add this rest] show ?thesis by simp
  qed
qed

lemma manifestPhase_registry:
  assumes step: "\<And>m dep. I m \<Longrightarrow> I (addDependency m dep)"
  shows "I (allDependencies st) \<Longrightarrow> snd (manifestPhase env repoUrl paths st) = Inr st'
    \<Longrightarrow> I (allDependencies st')"
proof -
  assume i: "I (allDependencies st)" and run: "snd (manifestPhase env repoUrl paths st) = Inr st'"
  have "st' = st \<or> (\<exists>ds m. addDependencies_unchecked (allDependencies st) ds = Inr m
      \<and> allDependencies st' = m)"
    using run by (auto simp: manifestPhase_def split: sum.splits option.splits)
  then show ?thesis
  proof
    assume "st' = st"
    with i show ?thesis by simp
  next
    assume "\<exists>ds m. addDependencies_unchecked (allDependencies st) ds = Inr m
      \<and> allDependencies st' = m"
    then obtain ds m where a: "addDependencies_unchecked (allDependencies st) ds = Inr m"
      and m: "allDependencies st' = m" by blast
    from addDependencies_unchecked_inv [of I "\<lambda>dep. True", OF step i _ a] m show ?thesis by simp
  qed
qed

lemma licensePhase_registry:
  "snd (licensePhase env repoUrl p st) = Inr st' \<Longrightarrow> allDependencies st' = allDependencies st
     \<and> toolchainInfo st' = toolchainInfo st"
  by (auto simp: licensePhase_def split: sum.splits)

lemma discoveryPhases_registry:
  assumes step: "\<And>m dep. I m \<Longrightarrow> I (addDependency m dep)" and init: "I []"
    and run: "snd (discoveryPhases env repoUrl) = Inr st"
  shows "I (allDependencies st)"
proof -
  from run obtain fileTree where tree: "getRepoFileTree env repoUrl = Inr fileTree"
    by (auto simp: discoveryPhases_def split: sum.splits)
  let ?src = "filter isSourceFile fileTree"
  let ?man = "filter isManifest fileTree"
  from run tree obtain st2 st3 where
    p2: "snd (if ?man \<noteq> [] then manifestPhase env repoUrl ?man initial_state
              else ([], Inr initial_state)) = Inr st2"
    and p3: "snd (if ?src \<noteq> [] then sourceScanLoop env repoUrl ?src 0 st2 else ([], Inr st2)) = Inr st3"
    and p4: "snd (case find isLicense fileTree of None \<Rightarrow> ([], Inr st3)
                  | Some f \<Rightarrow> licensePhase env repoUrl f st3) = Inr st"
    by (auto simp: discoveryPhases_def Let_def then_run_Inr)
  have i0: "I (allDependencies initial_state)" using init by (simp add: initial_state_def)
  have i2: "I (allDependencies st2)"
    using p2 i0 manifestPhase_registry [of I, OF step] by (auto split: if_splits)
  have i3: "I (allDependencies st3)"
    using p3 i2 sourceScanLoop_registry [of I, OF step] by (auto split: if_splits)
  show ?thesis
    using p4 i3 licensePhase_registry by (auto split: option.splits)
qed

lemma addDependency_names:
  "\<forall>(k, r) \<in> set m. dep_name r \<noteq> [] \<Longrightarrow> \<forall>(k, r) \<in> set (addDependency m d). dep_name r \<noteq> []"
  by (auto simp: addDependency_def Let_def)

text \<open>
  C10. A record with an empty name is never added to the registry: every record of the
  list a discovery returns has a non-empty name.
\<close>

theorem discovered_names_not_empty:
  assumes "snd (discoverDependencies env repoUrl) = Inr result"
  shows "\<forall>d \<in> set (res_dependencies result). dep_name d \<noteq> []"
proof -
  from assms obtain st where st: "snd (discoveryPhases env repoUrl) = Inr st"
    and r: "res_dependencies result = values_of (allDependencies st)"
    by (auto simp: discoverDependencies_def Let_def split: sum.splits)
  have "\<forall>(k, r) \<in> set (allDependencies st). dep_name r \<noteq> []"
    by (rule discoveryPhases_registry [where I = "\<lambda>m. \<forall>(k, r) \<in> set m. dep_name r \<noteq> []", OF _ _ st])
      (simp_all add: addDependency_names)
  then show ?thesis by (auto simp: r values_of_def)
qed

section \<open>Discovery: batches of the source scan\<close>

lemma fetchAll_Nil: "fetchAll env repoUrl [] = Inr []"
  by (simp add: fetchAll_def)

lemma fetchAll_Cons:
  "fetchAll env repoUrl (p # ps) =
     (case getFileContent env repoUrl p of
        Inl e \<Rightarrow> Inl e
      | Inr c \<Rightarrow> (case fetchAll env repoUrl ps of Inl e \<Rightarrow> Inl e | Inr cs \<Rightarrow> Inr ((p, c) # cs)))"
  by (simp add: fetchAll_def split: sum.splits)

lemma fetchAll_paths: "fetchAll env repoUrl ps = Inr cs \<Longrightarrow> map fst cs = ps"
proof (induction ps arbitrary: cs)
  case Nil
  then show ?case by (simp add: fetchAll_Nil)
next
  case (Cons p ps)
  from Cons.prems obtain c cs' where "fetchAll env repoUrl ps = Inr cs'" "cs = (p, c) # cs'"
    by (auto simp: fetchAll_Cons split: sum.splits)
  with Cons.IH show ?case by simp
qed

lemma fetchAll_ok:
  "\<forall>p\<in>set ps. \<exists>c. getFileContent env repoUrl p = Inr c \<Longrightarrow> \<exists>cs. fetchAll env repoUrl ps = Inr cs"
proof (induction ps)
  case Nil
  then show ?case by (simp add: fetchAll_Nil)
next
  case (Cons p ps)
  then obtain c cs where "getFileContent env repoUrl p = Inr c" "fetchAll env repoUrl ps = Inr cs"
    by auto
  then show ?case by (simp add: fetchAll_Cons)
qed

lemma fetchAll_fails:
  "p \<in> set ps \<Longrightarrow> getFileContent env repoUrl p = Inl e \<Longrightarrow> \<exists>e'. fetchAll env repoUrl ps = Inl e'"
proof (induction ps)
  case Nil
  then show ?case by simp
next
  case (Cons q qs)
  show ?case
  proof (cases "getFileContent env repoUrl q")
    case (Inl a)
    then show ?thesis by (simp add: fetchAll_Cons)
  next
    case (Inr c)
    with Cons obtain e' where "fetchAll env repoUrl qs = Inl e'" by auto
    with Inr show ?thesis by (simp add: fetchAll_Cons)
  qed
qed

lemma analyzeSourceCodeBatch_calls:
  "cs \<noteq> [] \<Longrightarrow> fst (analyzeSourceCodeBatch env cs ex) = [sourceScanRequest cs ex]"
  by (simp add: analyzeSourceCodeBatch_def)

lemma request_paths_sourceScanRequest: "request_paths (sourceScanRequest cs ex) = map fst cs"
  by (simp add: sourceScanRequest_def comp_def case_prod_unfold)

lemma is_SourceScanRequest_sourceScanRequest: "is_SourceScanRequest (sourceScanRequest cs ex)"
  by (simp add: sourceScanRequest_def)

lemma batches_arith:
  "i < n \<Longrightarrow> (n - i + 14) div 15 = Suc ((n - (i + 15) + 14) div 15)"
  by (cases "n - i \<ge> 15") auto

lemma sourceScanLoop_calls:
  "snd (sourceScanLoop env repoUrl paths i st) = Inr st'
    \<Longrightarrow> map request_paths (fst (sourceScanLoop env repoUrl paths i st))
        = map (\<lambda>k. take 15 (drop (i + 15 * k) paths)) [0..<(length paths - i + 14) div 15]
    \<and> list_all is_SourceScanRequest (fst (sourceScanLoop env repoUrl paths i st))"
proof (induction env repoUrl paths i st rule: sourceScanLoop.induct)
  case (1 env repoUrl sourceFilePaths i st)
  show ?case
  proof (cases "i < length sourceFilePaths")
    case False
    then show ?thesis by (simp add: sourceScanLoop.simps)
  next
    case True
    let ?batch = "take BATCH_SIZE (drop i sourceFilePaths)"
    from "1.prems" True obtain cs where fetch: "fetchAll env repoUrl ?batch = Inr cs"
      by (subst (asm) sourceScanLoop.simps) (auto split: sum.splits)
    have paths: "map fst cs = ?batch" using fetchAll_paths [OF fetch] .
    have "?batch \<noteq> []" using True by (simp add: BATCH_SIZE_def)
    with paths have ne: "cs \<noteq> []" by auto
    let ?ex = "keys_of (allDependencies st)"
    let ?found = "analyzeSourceCodeBatch env cs ?ex"
    from "1.prems" True fetch obtain m where
      add: "addDependencies_unchecked (allDependencies st) (snd ?found) = Inr m"
      by (subst (asm) sourceScanLoop.simps) (auto simp: Let_def split: sum.splits)
    let ?st = "st\<lparr>allDependencies := m\<rparr>"
    let ?rest = "sourceScanLoop env repoUrl sourceFilePaths (i + BATCH_SIZE) ?st"
    have unfold: "sourceScanLoop env repoUrl sourceFilePaths i st = then_run (fst ?found, Inr ?st)
        (sourceScanLoop env repoUrl sourceFilePaths (i + BATCH_SIZE))"
      using True fetch add by (subst sourceScanLoop.simps) (simp add: Let_def)
    from "1.prems" have r1: "snd ?rest = Inr st'"
      by (simp add: unfold then_run_def)
    from "1.IH" [OF True fetch refl add r1]
    have r2: "map request_paths (fst ?rest)
        = map (\<lambda>k. take 15 (drop (i + BATCH_SIZE + 15 * k) sourceFilePaths))
            [0..<(length sourceFilePaths - (i + BATCH_SIZE) + 14) div 15]"
      and r3: "list_all is_SourceScanRequest (fst ?rest)"
      by simp_all
    have c: "fst (sourceScanLoop env repoUrl sourceFilePaths i st) = sourceScanRequest cs ?ex # fst ?rest"
      by (simp add: unfold then_run_def analyzeSourceCodeBatch_calls [OF ne])
    have m: "map request_paths (fst (sourceScanLoop env repoUrl sourceFilePaths i st))
        = map (\<lambda>k. take 15 (drop (i + 15 * k) sourceFilePaths))
            [0..<(length sourceFilePaths - i + 14) div 15]"
      using r2 paths
      by (simp add: c request_paths_sourceScanRequest batches_arith [OF True] BATCH_SIZE_def
          map_upt_Suc add.assoc del: upt_Suc)
    show ?thesis
      using m r3 by (simp add: c is_SourceScanRequest_sourceScanRequest)
  qed
qed

lemma addDependencies_unchecked_ok:
  "\<forall>d\<in>set ds. un_name d \<noteq> None \<Longrightarrow> \<exists>m'. addDependencies_unchecked m ds = Inr m'"
proof (induction ds arbitrary: m)
  case Nil
  then show ?case by simp
next
  case (Cons d ds)
  then obtain n where "un_name d = Some n" by auto
  then obtain dep where "checked d = Some dep" by (simp add: checked_def)
  with Cons show ?case by simp
qed

lemma sourceScanLoop_completes:
  assumes ok: "\<forall>p\<in>set paths. \<exists>c. getFileContent env repoUrl p = Inr c"
    and named: "\<forall>cs ex. \<forall>d\<in>set (snd (analyzeSourceCodeBatch env cs ex)). un_name d \<noteq> None"
  shows "\<exists>st'. snd (sourceScanLoop env repoUrl paths i st) = Inr st'"
  using ok named
proof (induction env repoUrl paths i st rule: sourceScanLoop.induct)
  case (1 env repoUrl sourceFilePaths i st)
  show ?case
  proof (cases "i < length sourceFilePaths")
    case False
    then show ?thesis by (simp add: sourceScanLoop.simps)
  next
    case True
    let ?batch = "take BATCH_SIZE (drop i sourceFilePaths)"
    have "\<forall>p\<in>set ?batch. \<exists>c. getFileContent env repoUrl p = Inr c"
      using "1.prems"(1) by (meson in_set_dropD in_set_takeD)
    from fetchAll_ok [OF this] obtain cs where fetch: "fetchAll env repoUrl ?batch = Inr cs"
      by blast
    let ?found = "analyzeSourceCodeBatch env cs (keys_of (allDependencies st))"
    have "\<forall>d\<in>set (snd ?found). un_name d \<noteq> None" using "1.prems"(2) by blast
    from addDependencies_unchecked_ok [OF this]
    obtain m where add: "addDependencies_unchecked (allDependencies st) (snd ?found) = Inr m"
      by blast
    let ?st = "st\<lparr>allDependencies := m\<rparr>"
    from "1.IH" [OF True fetch refl add "1.prems"]
    obtain st' where "snd (sourceScanLoop env repoUrl sourceFilePaths (i + BATCH_SIZE) ?st) = Inr st'"
      by blast
    then show ?thesis
      using True fetch add by (subst sourceScanLoop.simps) (simp add: Let_def then_run_def)
  qed
qed

lemma concat_slices:
  "concat (map (\<lambda>k. take n (drop (n * k) xs)) [0..<m]) = take (n * m) xs"
proof (induction m)
  case 0
  then show ?case by simp
next
  case (Suc m)
  have "take (n * m) xs @ take n (drop (n * m) xs) = take (n * m + n) xs"
    by (simp add: take_add)
  with Suc show ?case by (simp add: add.commute)
qed

lemma ceil_div_bounds: "0 < n \<Longrightarrow> 15 * ((n + 14) div 15 - 1) < n \<and> n \<le> 15 * ((n + 14) div 15)"
  for n :: nat
  by auto

lemma slice_member:
  "x \<in> set (take n (drop i xs)) \<Longrightarrow> \<exists>a. a < n \<and> i + a < length xs \<and> x = xs ! (i + a)"
proof -
  assume "x \<in> set (take n (drop i xs))"
  then obtain a where a: "a < length (take n (drop i xs))" and x: "x = take n (drop i xs) ! a"
    by (auto simp: in_set_conv_nth)
  from a have "a < n" "i + a < length xs" by auto
  with x show ?thesis by auto
qed

lemma slices_disjoint:
  assumes d: "distinct xs" and jk: "j < k"
  shows "set (take 15 (drop (15 * j) xs)) \<inter> set (take 15 (drop (15 * k) xs)) = {}"
proof (rule ccontr)
  assume "set (take 15 (drop (15 * j) xs)) \<inter> set (take 15 (drop (15 * k) xs)) \<noteq> {}"
  then obtain x where "x \<in> set (take 15 (drop (15 * j) xs))" "x \<in> set (take 15 (drop (15 * k) xs))"
    by auto
  then obtain a b where a: "a < 15" "15 * j + a < length xs" "x = xs ! (15 * j + a)"
    and b: "b < 15" "15 * k + b < length xs" "x = xs ! (15 * k + b)"
    using slice_member [of x 15 "15 * j" xs] slice_member [of x 15 "15 * k" xs] by blast
  with d have "15 * j + a = 15 * k + b" by (simp add: nth_eq_iff_index_eq)
  with a(1) b(1) jk show False by arith
qed

text \<open>
  C7 (as amended). For a list of \<open>N > 0\<close> source files, when the source scan runs to
  its end, it has sent exactly \<open>ceil(N/15)\<close> requests, all of them source-scan requests;
  the request number \<open>k\<close> covers the files \<open>15k\<close> to \<open>15k + 14\<close> of the list, in
  their order; every slice but the last has 15 files, the last between 1 and 15; the
  slices put together give the list, and they are disjoint when the paths are distinct.
  The scan runs to its end when the fetch of every file succeeds and every record of
  every parsed answer has a string as its name.
\<close>

theorem source_scan_batches:
  assumes ne: "sourceFilePaths \<noteq> []"
  shows "((\<forall>p\<in>set sourceFilePaths. \<exists>c. getFileContent env repoUrl p = Inr c)
        \<and> (\<forall>cs ex. \<forall>d\<in>set (snd (analyzeSourceCodeBatch env cs ex)). un_name d \<noteq> None)
       \<longrightarrow> (\<exists>st'. snd (sourceScanLoop env repoUrl sourceFilePaths 0 st) = Inr st'))
    \<and> ((\<exists>st'. snd (sourceScanLoop env repoUrl sourceFilePaths 0 st) = Inr st') \<longrightarrow>
        list_all is_SourceScanRequest (fst (sourceScanLoop env repoUrl sourceFilePaths 0 st))
      \<and> length (fst (sourceScanLoop env repoUrl sourceFilePaths 0 st))
          = (length sourceFilePaths + 14) div 15
      \<and> (\<forall>k < length (fst (sourceScanLoop env repoUrl sourceFilePaths 0 st)).
            request_paths (fst (sourceScanLoop env repoUrl sourceFilePaths 0 st) ! k)
              = take 15 (drop (15 * k) sourceFilePaths)
            \<and> 0 < length (request_paths (fst (sourceScanLoop env repoUrl sourceFilePaths 0 st) ! k))
            \<and> (if k + 1 < length (fst (sourceScanLoop env repoUrl sourceFilePaths 0 st))
                then length (request_paths (fst (sourceScanLoop env repoUrl sourceFilePaths 0 st) ! k)) = 15
                else length (request_paths (fst (sourceScanLoop env repoUrl sourceFilePaths 0 st) ! k)) \<le> 15))
      \<and> concat (map request_paths (fst (sourceScanLoop env repoUrl sourceFilePaths 0 st)))
          = sourceFilePaths
      \<and> (distinct sourceFilePaths \<longrightarrow>
           (\<forall>j k. j < k \<and> k < length (fst (sourceScanLoop env repoUrl sourceFilePaths 0 st)) \<longrightarrow>
              set (request_paths (fst (sourceScanLoop env repoUrl sourceFilePaths 0 st) ! j))
              \<inter> set (request_paths (fst (sourceScanLoop env repoUrl sourceFilePaths 0 st) ! k)) = {})))"
proof (intro conjI impI)
  assume "(\<forall>p\<in>set sourceFilePaths. \<exists>c. getFileContent env repoUrl p = Inr c)
        \<and> (\<forall>cs ex. \<forall>d\<in>set (snd (analyzeSourceCodeBatch env cs ex)). un_name d \<noteq> None)"
  then show "\<exists>st'. snd (sourceScanLoop env repoUrl sourceFilePaths 0 st) = Inr st'"
    using sourceScanLoop_completes by blast
next
  let ?calls = "fst (sourceScanLoop env repoUrl sourceFilePaths 0 st)"
  let ?n = "length sourceFilePaths"
  let ?m = "(?n + 14) div 15"
  assume "\<exists>st'. snd (sourceScanLoop env repoUrl sourceFilePaths 0 st) = Inr st'"
  then obtain st' where fin: "snd (sourceScanLoop env repoUrl sourceFilePaths 0 st) = Inr st'" ..
  from sourceScanLoop_calls [OF fin]
  have all: "list_all is_SourceScanRequest ?calls"
    and mp: "map request_paths ?calls = map (\<lambda>k. take 15 (drop (15 * k) sourceFilePaths)) [0..<?m]"
    by simp_all
  from mp have len: "length ?calls = ?m" by (metis length_map length_upt minus_nat.diff_0)
  have pos: "0 < ?n" using ne by simp
  note b = ceil_div_bounds [OF pos]
  have nth: "\<And>k. k < ?m \<Longrightarrow> request_paths (?calls ! k) = take 15 (drop (15 * k) sourceFilePaths)"
  proof -
    fix k assume k: "k < ?m"
    then have "map request_paths ?calls ! k = request_paths (?calls ! k)" using len by simp
    with mp k show "request_paths (?calls ! k) = take 15 (drop (15 * k) sourceFilePaths)" by simp
  qed
  have sizes: "\<And>k. k < ?m \<Longrightarrow> 0 < length (take 15 (drop (15 * k) sourceFilePaths))
      \<and> (if k + 1 < ?m then length (take 15 (drop (15 * k) sourceFilePaths)) = 15
          else length (take 15 (drop (15 * k) sourceFilePaths)) \<le> 15)"
  proof -
    fix k assume k: "k < ?m"
    then have "15 * k \<le> 15 * (?m - 1)" by simp
    with b have lt: "15 * k < ?n" by linarith
    have "k + 1 < ?m \<Longrightarrow> 15 * k + 15 \<le> ?n"
    proof -
      assume "k + 1 < ?m"
      then have "15 * (k + 1) \<le> 15 * (?m - 1)" by simp
      with b show ?thesis by simp
    qed
    with lt show "0 < length (take 15 (drop (15 * k) sourceFilePaths))
      \<and> (if k + 1 < ?m then length (take 15 (drop (15 * k) sourceFilePaths)) = 15
          else length (take 15 (drop (15 * k) sourceFilePaths)) \<le> 15)"
      by auto
  qed
  show "list_all is_SourceScanRequest ?calls" by (rule all)
  show "length ?calls = ?m" by (rule len)
  show "concat (map request_paths ?calls) = sourceFilePaths"
    using b by (simp add: mp concat_slices)
  show "\<forall>k < length ?calls.
          request_paths (?calls ! k) = take 15 (drop (15 * k) sourceFilePaths)
          \<and> 0 < length (request_paths (?calls ! k))
          \<and> (if k + 1 < length ?calls then length (request_paths (?calls ! k)) = 15
              else length (request_paths (?calls ! k)) \<le> 15)"
  proof (intro allI impI)
    fix k assume "k < length ?calls"
    then have k: "k < ?m" using len by simp
    show "request_paths (?calls ! k) = take 15 (drop (15 * k) sourceFilePaths)
          \<and> 0 < length (request_paths (?calls ! k))
          \<and> (if k + 1 < length ?calls then length (request_paths (?calls ! k)) = 15
              else length (request_paths (?calls ! k)) \<le> 15)"
      unfolding nth [OF k] len using sizes [OF k] by blast
  qed
  show "\<forall>j k. j < k \<and> k < length ?calls \<longrightarrow>
            set (request_paths (?calls ! j)) \<inter> set (request_paths (?calls ! k)) = {}"
    if d: "distinct sourceFilePaths"
  proof (intro impI allI, elim conjE)
    fix j k
    assume jk: "j < k" and k: "k < length ?calls"
    then have j': "j < ?m" and k': "k < ?m" using len by simp_all
    show "set (request_paths (?calls ! j)) \<inter> set (request_paths (?calls ! k)) = {}"
      unfolding nth [OF j'] nth [OF k']
      using slices_disjoint [OF d jk] .
  qed
qed

section \<open>Discovery: example runs\<close>

lemma toLowerCase_examples:
  "toLowerCase ''platformio.ini'' = ''platformio.ini''"
  "toLowerCase ''src/main.cpp'' = ''src/main.cpp''"
  "toLowerCase ''LICENSE'' = ''license''"
  "toLowerCase ''LibA'' = ''liba''"
  "toLowerCase ''liba'' = ''liba''"
  "toLowerCase ''LibB'' = ''libb''"
  by (simp_all add: toLowerCase_def lower_char_def lower_table_def)

lemma example_files_kinds:
  "filter isSourceFile example_files = [''src/main.cpp'']"
  "filter isManifest example_files = [''platformio.ini'']"
  "find isLicense example_files = Some ''LICENSE''"
  by (simp_all add: example_files_def isSourceFile_def isManifest_def isLicense_def
      toLowerCase_examples ends_with_def starts_with_def)




lemmas run_defs =
  discoverDependencies_def discoveryPhases_def manifestPhase_def fetchAll_def
  parseGeminiJson_def then_run_def initial_state_def addDependency_def has_def withSource_def
  checked_def sourceScanLoop.simps BATCH_SIZE_def analyzeSourceCodeBatch_def
  sourceScanRequest_def keys_of_def values_of_def licensePhase_def Let_def

lemma cleanedText_answers:
  "cleanedText ''manifest answer'' = ''manifest answer''"
  "cleanedText ''scan answer'' = ''scan answer''"
  "cleanedText ''license answer'' = ''license answer''"
  "cleanedText ''no answer'' = ''no answer''"
  by (simp_all add: cleanedText_def strip_fence_open_def strip_fence_close_def starts_with_def
      ends_with_def fence_open_def fence_close_def)

lemma example_run:
  "discoverDependencies example_services example_url =
    ([ManifestRequest [(''platformio.ini'', ''content of platformio.ini'')],
      SourceScanRequest [(''src/main.cpp'', ''content of src/main.cpp'')] [''liba''],
      LicenseRequest ''content of LICENSE''],
     Inr \<lparr>res_dependencies =
            [\<lparr>dep_name = ''LibA'', dep_url = ''https://github.com/a/LibA'',
              dep_discoverySource = ''Build Manifest''\<rparr>,
             \<lparr>dep_name = ''LibB'', dep_url = ''https://github.com/b/LibB'',
              dep_discoverySource = ''Source Code Scan''\<rparr>],
          res_toolchainInfo = ''PlatformIO'',
          res_rootLicenseInfo = Some \<lparr>spdxId = ''MIT'', complianceSummary = ''Permissive.''\<rparr>\<rparr>)"
  by (simp add: run_defs example_services_def example_files_kinds cleanedText_answers
      toLowerCase_examples)


theorem discovered_names_not_empty_witness:
  "(\<exists>result. snd (discoverDependencies example_services example_url) = Inr result
       \<and> map dep_name (res_dependencies result) = [''LibA'', ''LibB'']
       \<and> list_all (\<lambda>d. dep_name d \<noteq> []) (res_dependencies result))"
proof -
  obtain result where r: "snd (discoverDependencies example_services example_url) = Inr result"
    and n: "map dep_name (res_dependencies result) = [''LibA'', ''LibB'']"
    by (simp add: example_run)
  from discovered_names_not_empty [OF r]
  have "list_all (\<lambda>d. dep_name d \<noteq> []) (res_dependencies result)"
    by (simp add: list_all_iff)
  then show ?thesis
    by (intro conjI exI [of _ result]) (rule r n | assumption)+
qed

lemma sixteen_fetches: "\<forall>p\<in>set sixteen_files. \<exists>c. getFileContent sixteen_services example_url p = Inr c"
  by (simp add: sixteen_services_def example_services_def)

lemma analyzeSourceCodeBatch_cases:
  "snd (analyzeSourceCodeBatch env cs ex) = []
   \<or> (\<exists>t ds. parseGeminiJson (JSON_parse_dependencies env) t = Inr (Some (Some ds))
         \<and> snd (analyzeSourceCodeBatch env cs ex) = map (withSource ''Source Code Scan'') ds)"
proof (cases "cs = []")
  case True
  then show ?thesis by (simp add: analyzeSourceCodeBatch_def)
next
  case False
  show ?thesis
  proof (cases "generateContent env (sourceScanRequest cs ex)")
    case (Inl e)
    with False show ?thesis by (simp add: analyzeSourceCodeBatch_def)
  next
    case (Inr t)
    show ?thesis
    proof (cases "parseGeminiJson (JSON_parse_dependencies env) t")
      case (Inl e)
      with False Inr show ?thesis by (simp add: analyzeSourceCodeBatch_def)
    next
      case r: (Inr v)
      show ?thesis
      proof (cases v)
        case None
        with False Inr r show ?thesis by (simp add: analyzeSourceCodeBatch_def)
      next
        case (Some w)
        show ?thesis
        proof (cases w)
          case None
          with False Inr r Some show ?thesis by (simp add: analyzeSourceCodeBatch_def)
        next
          case (Some ds)
          with False Inr r \<open>v = Some w\<close>
          have "parseGeminiJson (JSON_parse_dependencies env) t = Inr (Some (Some ds))
            \<and> snd (analyzeSourceCodeBatch env cs ex) = map (withSource ''Source Code Scan'') ds"
            by (simp add: analyzeSourceCodeBatch_def)
          then show ?thesis by blast
        qed
      qed
    qed
  qed
qed

lemma analyzeSourceCodeBatch_named:
  assumes "\<forall>t ds. JSON_parse_dependencies env t = Inr (Some (Some ds))
      \<longrightarrow> (\<forall>d\<in>set ds. ex_name d \<noteq> None)"
  shows "\<forall>cs ex. \<forall>d\<in>set (snd (analyzeSourceCodeBatch env cs ex)). un_name d \<noteq> None"
proof (intro allI ballI)
  fix cs ex d
  assume d: "d \<in> set (snd (analyzeSourceCodeBatch env cs ex))"
  from analyzeSourceCodeBatch_cases [of env cs ex] d
  obtain t ds where "parseGeminiJson (JSON_parse_dependencies env) t = Inr (Some (Some ds))"
    and m: "d \<in> set (map (withSource ''Source Code Scan'') ds)"
    by auto
  then have "JSON_parse_dependencies env (cleanedText t) = Inr (Some (Some ds))"
    by (auto simp: parseGeminiJson_def split: sum.splits)
  with assms have "\<forall>x\<in>set ds. ex_name x \<noteq> None" by blast
  with m show "un_name d \<noteq> None" by (auto simp: withSource_def)
qed

lemma sixteen_named:
  "\<forall>cs ex. \<forall>d\<in>set (snd (analyzeSourceCodeBatch sixteen_services cs ex)). un_name d \<noteq> None"
proof (rule analyzeSourceCodeBatch_named, intro allI impI)
  fix t ds
  assume "JSON_parse_dependencies sixteen_services t = Inr (Some (Some ds))"
  then have "ds = [\<lparr>ex_name = Some ''liba'', ex_url = ''https://github.com/b/liba''\<rparr>,
                   \<lparr>ex_name = Some ''LibB'', ex_url = ''https://github.com/b/LibB''\<rparr>]"
    by (simp add: sixteen_services_def example_services_def split: if_splits)
  then show "\<forall>d\<in>set ds. ex_name d \<noteq> None" by simp
qed

theorem source_scan_batches_witness:
  "sixteen_files \<noteq> []
   \<and> (\<exists>st'. snd (sourceScanLoop sixteen_services example_url sixteen_files 0 initial_state) = Inr st')
   \<and> (\<exists>calls. fst (sourceScanLoop sixteen_services example_url sixteen_files 0 initial_state) = calls
         \<and> length calls = 2
         \<and> request_paths (calls ! 0) = take 15 sixteen_files
         \<and> request_paths (calls ! 1) = [''p.c'']
         \<and> concat (map request_paths calls) = sixteen_files)"
proof -
  have ne: "sixteen_files \<noteq> []" by (simp add: sixteen_files_def)
  note t = source_scan_batches [OF ne, of sixteen_services example_url initial_state]
  let ?calls = "fst (sourceScanLoop sixteen_services example_url sixteen_files 0 initial_state)"
  have fin: "\<exists>st'. snd (sourceScanLoop sixteen_services example_url sixteen_files 0 initial_state) = Inr st'"
    using t [THEN conjunct1] sixteen_fetches sixteen_named by (rule mp [OF _ conjI])
  note u = t [THEN conjunct2, THEN mp, OF fin]
  have n: "(length sixteen_files + 14) div 15 = 2" by (simp add: sixteen_files_def)
  have len: "length ?calls = 2"
    using u [THEN conjunct2, THEN conjunct1] n by (simp only:)
  note per = u [THEN conjunct2, THEN conjunct2, THEN conjunct1, unfolded len]
  have p0: "request_paths (?calls ! 0) = take 15 (drop (15 * 0) sixteen_files)"
    using per [rule_format, of 0] by simp
  have p1: "request_paths (?calls ! 1) = take 15 (drop (15 * 1) sixteen_files)"
    using per [rule_format, of 1] by simp
  have d: "take 15 (drop (15 * 1) sixteen_files) = [''p.c'']" by (simp add: sixteen_files_def)
  have cc: "concat (map request_paths ?calls) = sixteen_files"
    using u [THEN conjunct2, THEN conjunct2, THEN conjunct2, THEN conjunct1] .
  from p0 have p0': "request_paths (?calls ! 0) = take 15 sixteen_files" by simp
  from p1 d have p1': "request_paths (?calls ! 1) = [''p.c'']" by (simp only:)
  show ?thesis
    by (intro conjI exI [of _ ?calls]) (rule ne fin refl len p0' p1' cc)+
qed

text \<open>
  C7 as stated fails. When the fetch of a file of the first batch fails, the scan throws
  and has sent no request. When all fetches succeed and the answer to the first request
  holds a record without a name, \<open>addDependencies\<close> throws after the first request. In
  both runs sixteen files would need two requests.
\<close>

theorem failures_stop_source_scan:
  "getFileContent failing_services example_url ''a.c'' = Inl (Error (RequestFailed 500))
   \<and> sourceScanLoop failing_services example_url sixteen_files 0 initial_state
       = ([], Inl (Error (RequestFailed 500)))
   \<and> length (fst (sourceScanLoop failing_services example_url sixteen_files 0 initial_state))
       \<noteq> (length sixteen_files + 14) div 15
   \<and> list_all (\<lambda>p. getFileContent nameless_services example_url p = Inr (''content of '' @ p))
        sixteen_files
   \<and> snd (sourceScanLoop nameless_services example_url sixteen_files 0 initial_state)
       = Inl (Error JsTypeError)
   \<and> length (fst (sourceScanLoop nameless_services example_url sixteen_files 0 initial_state)) = 1
   \<and> (length sixteen_files + 14) div 15 = 2"
  by (simp add: sourceScanLoop.simps failing_services_def nameless_services_def
      sixteen_services_def example_services_def sixteen_files_def fetchAll_def BATCH_SIZE_def
      analyzeSourceCodeBatch_def sourceScanRequest_def parseGeminiJson_def withSource_def
      checked_def keys_of_def initial_state_def)

section \<open>Parsing responses\<close>

lemma backtick_not_space: "\<not> js_space (CHR 0x60)"
  by (simp add: js_space_def)

lemma strip_fence_open_fenced: "strip_fence_open (fence_open @ rest) = dropWhile js_space rest"
  by (simp add: strip_fence_open_def starts_with_def)

lemma strip_fence_close_fenced:
  "strip_fence_close (s @ fence_close) = rev (dropWhile js_space (rev s))"
  by (simp add: strip_fence_close_def ends_with_def fence_close_def)

lemma dropWhile_spaces: "list_all js_space w \<Longrightarrow> dropWhile js_space (w @ s) = dropWhile js_space s"
  by (simp add: list_all_iff dropWhile_append2)

lemma dropWhile_fence_close: "dropWhile js_space fence_close = fence_close"
  by (simp add: fence_close_def backtick_not_space)

lemma dropWhile_no_space: "s = [] \<or> \<not> js_space (hd s) \<Longrightarrow> dropWhile js_space s = s"
  by (cases s) auto

lemma cleanedText_fenced:
  assumes w1: "list_all js_space w1" and w2: "list_all js_space w2"
  shows "cleanedText (fence_open @ w1 @ body @ w2 @ fence_close) = js_trim body"
proof (cases "dropWhile js_space body = []")
  case True
  then have all: "list_all js_space body"
    by (simp add: list_all_iff dropWhile_eq_Nil_conv)
  have "strip_fence_open (fence_open @ w1 @ body @ w2 @ fence_close) = fence_close"
    by (simp add: strip_fence_open_fenced dropWhile_spaces w1 w2 all dropWhile_fence_close)
  moreover have "strip_fence_close ([] @ fence_close) = []"
    by (simp only: strip_fence_close_fenced) simp
  ultimately show ?thesis by (simp add: cleanedText_def js_trim_def True)
next
  case False
  then obtain x where x: "x \<in> set body" "\<not> js_space x"
    by (auto simp: dropWhile_eq_Nil_conv)
  have "dropWhile js_space (body @ w2 @ fence_close) = dropWhile js_space body @ w2 @ fence_close"
    using x by (rule dropWhile_append1)
  then have o: "strip_fence_open (fence_open @ w1 @ body @ w2 @ fence_close)
      = (dropWhile js_space body @ w2) @ fence_close"
    by (simp add: strip_fence_open_fenced dropWhile_spaces w1)
  have "list_all js_space (rev w2)" using w2 by (simp add: list_all_iff)
  then have "dropWhile js_space (rev w2 @ rev (dropWhile js_space body))
      = dropWhile js_space (rev (dropWhile js_space body))"
    by (rule dropWhile_spaces)
  then show ?thesis
    by (simp add: cleanedText_def o strip_fence_close_fenced js_trim_def del: append_assoc)
qed

lemma cleanedText_open_only:
  assumes w1: "list_all js_space w1" and b: "body = [] \<or> \<not> js_space (hd body)"
    and c: "\<not> ends_with fence_close body"
  shows "cleanedText (fence_open @ w1 @ body) = body"
proof -
  have "strip_fence_open (fence_open @ w1 @ body) = body"
    by (simp add: strip_fence_open_fenced dropWhile_spaces [OF w1] dropWhile_no_space [OF b])
  with c show ?thesis by (simp add: cleanedText_def strip_fence_close_def)
qed

lemma cleanedText_close_only:
  assumes w2: "list_all js_space w2" and b: "body = [] \<or> \<not> js_space (last body)"
    and o: "\<not> starts_with fence_open (body @ w2 @ fence_close)"
  shows "cleanedText (body @ w2 @ fence_close) = body"
proof -
  have o': "strip_fence_open (body @ w2 @ fence_close) = (body @ w2) @ fence_close"
    using o by (simp add: strip_fence_open_def)
  have "list_all js_space (rev w2)" using w2 by (simp add: list_all_iff)
  then have "dropWhile js_space (rev w2 @ rev body) = dropWhile js_space (rev body)"
    by (rule dropWhile_spaces)
  moreover have "dropWhile js_space (rev body) = rev body"
    using b by (intro dropWhile_no_space) (auto simp: hd_rev)
  ultimately show ?thesis
    by (simp add: cleanedText_def o' strip_fence_close_fenced del: append_assoc)
qed

lemma cleanedText_bare:
  "\<not> starts_with fence_open s \<Longrightarrow> \<not> ends_with fence_close s \<Longrightarrow> cleanedText s = s"
  by (simp add: cleanedText_def strip_fence_open_def strip_fence_close_def)

lemma starts_with_split: "starts_with pat s \<Longrightarrow> s = pat @ drop (length pat) s"
  by (metis append_take_drop_id starts_with_def)

lemma ends_with_split: "ends_with pat s \<Longrightarrow> s = take (length s - length pat) s @ pat"
  by (metis append_take_drop_id ends_with_def)

lemma split_trailing_spaces:
  "\<exists>b u. c = b @ u \<and> list_all js_space u \<and> (b = [] \<or> \<not> js_space (last b))"
proof -
  let ?u = "rev (takeWhile js_space (rev c))"
  let ?b = "rev (dropWhile js_space (rev c))"
  have "rev c = takeWhile js_space (rev c) @ dropWhile js_space (rev c)" by simp
  then have "c = ?b @ ?u" by (metis rev_append rev_rev_ident)
  moreover have "list_all js_space ?u"
    by (auto simp: list_all_iff dest: set_takeWhileD)
  moreover have "?b = [] \<or> \<not> js_space (last ?b)"
  proof (cases "dropWhile js_space (rev c) = []")
    case True
    then show ?thesis by simp
  next
    case False
    from hd_dropWhile [OF False] show ?thesis by (simp add: last_rev)
  qed
  ultimately show ?thesis by blast
qed

lemma split_leading_spaces:
  "\<exists>u b. c = u @ b \<and> list_all js_space u \<and> (b = [] \<or> \<not> js_space (hd b))"
proof -
  have "c = takeWhile js_space c @ dropWhile js_space c" by simp
  moreover have "list_all js_space (takeWhile js_space c)"
    by (auto simp: list_all_iff dest: set_takeWhileD)
  moreover have "dropWhile js_space c = [] \<or> \<not> js_space (hd (dropWhile js_space c))"
    using hd_dropWhile [of js_space c] by blast
  ultimately show ?thesis by blast
qed

lemma response_shapes:
  "\<exists>u1 b u2. list_all js_space u1 \<and> list_all js_space u2
     \<and> (response = fence_open @ u1 @ b @ u2 @ fence_close
        \<or> (response = fence_open @ u1 @ b \<and> (b = [] \<or> \<not> js_space (hd b))
             \<and> \<not> ends_with fence_close b)
        \<or> (response = b @ u2 @ fence_close \<and> \<not> starts_with fence_open response
             \<and> (b = [] \<or> \<not> js_space (last b)))
        \<or> (\<not> starts_with fence_open response \<and> \<not> ends_with fence_close response))"
proof (cases "starts_with fence_open response")
  case True
  from split_leading_spaces [of "drop (length fence_open) response"]
  obtain u1 b0 where r: "drop (length fence_open) response = u1 @ b0"
    and u1: "list_all js_space u1" and b0: "b0 = [] \<or> \<not> js_space (hd b0)" by blast
  from starts_with_split [OF True] r have resp: "response = fence_open @ u1 @ b0" by simp
  show ?thesis
  proof (cases "ends_with fence_close b0")
    case False
    have "list_all js_space ([]::string)" by simp
    with resp u1 b0 False show ?thesis by blast
  next
    case e: True
    from split_trailing_spaces [of "take (length b0 - length fence_close) b0"]
    obtain b u2 where c: "take (length b0 - length fence_close) b0 = b @ u2"
      and u2: "list_all js_space u2" by blast
    from ends_with_split [OF e] c have "b0 = b @ u2 @ fence_close" by simp
    with resp have "response = fence_open @ u1 @ b @ u2 @ fence_close" by simp
    with u1 u2 show ?thesis by blast
  qed
next
  case False
  show ?thesis
  proof (cases "ends_with fence_close response")
    case n: False
    have "list_all js_space ([]::string)" by simp
    with False n show ?thesis by blast
  next
    case e: True
    from split_trailing_spaces [of "take (length response - length fence_close) response"]
    obtain b u2 where c: "take (length response - length fence_close) response = b @ u2"
      and u2: "list_all js_space u2" and b: "b = [] \<or> \<not> js_space (last b)" by blast
    from ends_with_split [OF e] c have "response = b @ u2 @ fence_close" by simp
    moreover have "list_all js_space ([]::string)" by simp
    ultimately show ?thesis using False u2 b by blast
  qed
qed

text \<open>
  C9 (as amended). Every response text has one of four shapes, and on each the text that
  is parsed is known: with the opening marker (three backticks and \<open>json\<close>) at the start
  and the closing marker (three backticks) at the end, both markers and the white space
  next to them are stripped; with the opening marker only, it and the white space after it
  are stripped; with the closing marker only, it and the white space before it are
  stripped; with neither, the text is parsed as it is. A JSON text between the two markers
  parses to the same value as the bare text (which starts with no opening marker, ends with
  no closing marker, and parses the same with and without the white space around it, as
  every valid JSON text does). \<open>parseGeminiJson\<close> never throws: when \<open>JSON.parse\<close>
  throws, the result is \<open>null\<close>, and otherwise it is the parsed value.
\<close>

theorem json_fences_are_stripped:
  assumes w1: "list_all js_space w1" and w2: "list_all js_space w2"
  shows "cleanedText (fence_open @ w1 @ body @ w2 @ fence_close) = js_trim body
    \<and> ((body = [] \<or> \<not> js_space (hd body)) \<and> \<not> ends_with fence_close body
         \<longrightarrow> cleanedText (fence_open @ w1 @ body) = body)
    \<and> ((body = [] \<or> \<not> js_space (last body)) \<and> \<not> starts_with fence_open (body @ w2 @ fence_close)
         \<longrightarrow> cleanedText (body @ w2 @ fence_close) = body)
    \<and> (\<not> starts_with fence_open response \<and> \<not> ends_with fence_close response
         \<longrightarrow> cleanedText response = response)
    \<and> (\<exists>u1 b u2. list_all js_space u1 \<and> list_all js_space u2
         \<and> (response = fence_open @ u1 @ b @ u2 @ fence_close
            \<or> (response = fence_open @ u1 @ b \<and> (b = [] \<or> \<not> js_space (hd b))
                 \<and> \<not> ends_with fence_close b)
            \<or> (response = b @ u2 @ fence_close \<and> \<not> starts_with fence_open response
                 \<and> (b = [] \<or> \<not> js_space (last b)))
            \<or> (\<not> starts_with fence_open response \<and> \<not> ends_with fence_close response)))
    \<and> (\<not> starts_with fence_open body \<and> \<not> ends_with fence_close body
         \<and> JSON_parse (js_trim body) = JSON_parse body
         \<longrightarrow> parseGeminiJson JSON_parse (fence_open @ w1 @ body @ w2 @ fence_close)
               = parseGeminiJson JSON_parse body)
    \<and> (\<exists>r. parseGeminiJson JSON_parse response = Inr r)
    \<and> ((\<exists>e. JSON_parse (cleanedText response) = Inl e)
         \<longrightarrow> parseGeminiJson JSON_parse response = Inr None)
    \<and> (\<forall>v. JSON_parse (cleanedText response) = Inr v
         \<longrightarrow> parseGeminiJson JSON_parse response = Inr v)"
proof (intro conjI impI allI)
  show "cleanedText (fence_open @ w1 @ body @ w2 @ fence_close) = js_trim body"
    by (rule cleanedText_fenced [OF w1 w2])
  show "cleanedText (fence_open @ w1 @ body) = body"
    if "(body = [] \<or> \<not> js_space (hd body)) \<and> \<not> ends_with fence_close body"
    using that cleanedText_open_only [OF w1] by blast
  show "cleanedText (body @ w2 @ fence_close) = body"
    if "(body = [] \<or> \<not> js_space (last body)) \<and> \<not> starts_with fence_open (body @ w2 @ fence_close)"
    using that cleanedText_close_only [OF w2] by blast
  show "cleanedText response = response"
    if "\<not> starts_with fence_open response \<and> \<not> ends_with fence_close response"
    using that cleanedText_bare by blast
  show "\<exists>u1 b u2. list_all js_space u1 \<and> list_all js_space u2
         \<and> (response = fence_open @ u1 @ b @ u2 @ fence_close
            \<or> (response = fence_open @ u1 @ b \<and> (b = [] \<or> \<not> js_space (hd b))
                 \<and> \<not> ends_with fence_close b)
            \<or> (response = b @ u2 @ fence_close \<and> \<not> starts_with fence_open response
                 \<and> (b = [] \<or> \<not> js_space (last b)))
            \<or> (\<not> starts_with fence_open response \<and> \<not> ends_with fence_close response))"
    by (rule response_shapes)
  show "parseGeminiJson JSON_parse (fence_open @ w1 @ body @ w2 @ fence_close)
               = parseGeminiJson JSON_parse body"
    if "\<not> starts_with fence_open body \<and> \<not> ends_with fence_close body
         \<and> JSON_parse (js_trim body) = JSON_parse body"
    using that by (simp add: parseGeminiJson_def cleanedText_fenced [OF w1 w2] cleanedText_bare)
  show "\<exists>r. parseGeminiJson JSON_parse response = Inr r"
    by (rule parseGeminiJson_returns)
  show "parseGeminiJson JSON_parse response = Inr None"
    if "\<exists>e. JSON_parse (cleanedText response) = Inl e"
    using that by (auto simp: parseGeminiJson_def)
  show "parseGeminiJson JSON_parse response = Inr v"
    if "JSON_parse (cleanedText response) = Inr v" for v
    using that by (simp add: parseGeminiJson_def)
qed

theorem json_fences_are_stripped_witness:
  "list_all js_space [CHR 0x0A]
   \<and> cleanedText (fence_open @ [CHR 0x0A] @ '' {} '' @ [CHR 0x0A] @ fence_close) = ''{}''
   \<and> cleanedText (fence_open @ [CHR 0x0A] @ ''{}'') = ''{}''
   \<and> cleanedText (''{}'' @ [CHR 0x0A] @ fence_close) = ''{}''
   \<and> cleanedText ''{'' = ''{''
   \<and> parseGeminiJson empty_object_parse (fence_open @ [CHR 0x0A] @ '' {} '' @ [CHR 0x0A] @ fence_close)
       = parseGeminiJson empty_object_parse '' {} ''
   \<and> parseGeminiJson empty_object_parse '' {} '' = Inr (Some ())
   \<and> empty_object_parse (cleanedText ''{'') = Inl (Error JsSyntaxError)
   \<and> parseGeminiJson empty_object_parse ''{'' = Inr None"
proof -
  have a: "list_all js_space [CHR 0x0A]" by (simp add: js_space_def)
  note m1 = json_fences_are_stripped [OF a a, of "'' {} ''" "''{''" empty_object_parse]
  note m2 = json_fences_are_stripped [OF a a, of "''{}''" "''{''" empty_object_parse]
  have t: "js_trim '' {} '' = ''{}''" by (simp add: js_trim_def js_space_def)
  have b1: "\<not> starts_with fence_open '' {} ''" by (simp add: starts_with_def fence_open_def)
  have b2: "\<not> ends_with fence_close '' {} ''" by (simp add: ends_with_def fence_close_def)
  have p: "empty_object_parse (js_trim '' {} '') = empty_object_parse '' {} ''"
    by (simp add: t empty_object_parse_def json_space_def)
  have c1: "cleanedText (fence_open @ [CHR 0x0A] @ '' {} '' @ [CHR 0x0A] @ fence_close) = ''{}''"
    using m1 [THEN conjunct1] t by (simp only:)
  have h2: "(''{}'' = [] \<or> \<not> js_space (hd ''{}'')) \<and> \<not> ends_with fence_close ''{}''"
    by (simp add: js_space_def ends_with_def fence_close_def)
  have c2: "cleanedText (fence_open @ [CHR 0x0A] @ ''{}'') = ''{}''"
    using m2 [THEN conjunct2, THEN conjunct1] h2 by (rule mp)
  have h3: "(''{}'' = [] \<or> \<not> js_space (last ''{}''))
      \<and> \<not> starts_with fence_open (''{}'' @ [CHR 0x0A] @ fence_close)"
    by (simp add: js_space_def starts_with_def fence_open_def fence_close_def)
  have c3: "cleanedText (''{}'' @ [CHR 0x0A] @ fence_close) = ''{}''"
    using m2 [THEN conjunct2, THEN conjunct2, THEN conjunct1] h3 by (rule mp)
  have h4: "\<not> starts_with fence_open ''{'' \<and> \<not> ends_with fence_close ''{''"
    by (simp add: starts_with_def ends_with_def fence_open_def fence_close_def)
  have c4: "cleanedText ''{'' = ''{''"
    using m2 [THEN conjunct2, THEN conjunct2, THEN conjunct2, THEN conjunct1] h4 by (rule mp)
  have c5: "parseGeminiJson empty_object_parse (fence_open @ [CHR 0x0A] @ '' {} '' @ [CHR 0x0A] @ fence_close)
       = parseGeminiJson empty_object_parse '' {} ''"
    by (rule m1 [THEN conjunct2, THEN conjunct2, THEN conjunct2, THEN conjunct2, THEN conjunct2,
        THEN conjunct1, THEN mp, OF conjI [OF b1 conjI [OF b2 p]]])
  have c6: "parseGeminiJson empty_object_parse '' {} '' = Inr (Some ())"
    by (simp add: parseGeminiJson_def cleanedText_bare [OF b1 b2] empty_object_parse_def json_space_def)
  have c7: "empty_object_parse (cleanedText ''{'') = Inl (Error JsSyntaxError)"
    by (simp add: c4 empty_object_parse_def json_space_def)
  have ex: "\<exists>e. empty_object_parse (cleanedText ''{'') = Inl e"
    using c7 by (rule exI)
  have c8: "parseGeminiJson empty_object_parse ''{'' = Inr None"
    by (rule m2 [THEN conjunct2, THEN conjunct2, THEN conjunct2, THEN conjunct2, THEN conjunct2,
        THEN conjunct2, THEN conjunct2, THEN conjunct1, THEN mp, OF ex])
  show ?thesis
    by (intro conjI) (rule a c1 c2 c3 c4 c5 c6 c7 c8)+
qed

text \<open>
  C9 as stated fails: a code fence that opens with three backticks and no \<open>json\<close> is
  not stripped at the start, and the valid JSON text \<open>{}\<close> between such fences does not
  parse.
\<close>

theorem plain_fence_is_not_stripped:
  "cleanedText (fence_close @ [CHR 0x0A] @ ''{}'' @ [CHR 0x0A] @ fence_close)
     = fence_close @ [CHR 0x0A] @ ''{}''
   \<and> parseGeminiJson empty_object_parse (fence_close @ [CHR 0x0A] @ ''{}'' @ [CHR 0x0A] @ fence_close)
       = Inr None
   \<and> parseGeminiJson empty_object_parse ''{}'' = Inr (Some ())"
  by (simp add: parseGeminiJson_def cleanedText_def strip_fence_open_def strip_fence_close_def
      starts_with_def ends_with_def fence_open_def fence_close_def js_space_def
      empty_object_parse_def json_space_def)

section \<open>The fallback assessment\<close>

text \<open>
  C6. For every name, URL and compilation date, when the response to the assessment
  request does not parse, \<open>analyzeDependency\<close> returns (it does not throw) an
  assessment with the risk level \<open>Critical\<close>, no vulnerability findings, and texts that
  say the analysis failed, none of them empty.
\<close>

theorem fallback_assessment:
  assumes "generateContent env (AssessmentRequest dependencyName dependencyUrl compilationDate)
      = Inr response"
    and "parseGeminiJson (JSON_parse_assessment env) response = Inr None"
  shows "\<exists>a. analyzeDependency env dependencyName dependencyUrl compilationDate = Inr a
    \<and> riskLevel a = Critical
    \<and> vulnerabilityAnalysis a = []
    \<and> maintainerAnalysis a = ''Could not analyze maintainers.''
    \<and> codeSecurityAnalysis a = ''Could not perform code security analysis.''
    \<and> spdxId (licenseAnalysis a) = ''Unknown''
    \<and> complianceSummary (licenseAnalysis a) = ''Failed to perform AI analysis on the license.''
    \<and> riskSummary a = ''Failed to perform AI analysis. Treat with extreme caution.''
    \<and> maintainerAnalysis a \<noteq> [] \<and> codeSecurityAnalysis a \<noteq> []
    \<and> spdxId (licenseAnalysis a) \<noteq> [] \<and> complianceSummary (licenseAnalysis a) \<noteq> []
    \<and> riskSummary a \<noteq> []"
  using assms by (simp add: analyzeDependency_def fallbackAssessment_def)

theorem fallback_assessment_witness:
  "generateContent degraded_services (AssessmentRequest ''LibA'' ''https://github.com/a/LibA'' ''2026-11-03'')
      = Inr ''no answer''
   \<and> JSON_parse_assessment degraded_services (cleanedText ''no answer'') = Inl (Error JsSyntaxError)
   \<and> parseGeminiJson (JSON_parse_assessment degraded_services) ''no answer'' = Inr None
   \<and> (\<exists>a. analyzeDependency degraded_services ''LibA'' ''https://github.com/a/LibA'' ''2026-11-03'' = Inr a
         \<and> riskLevel a = Critical \<and> vulnerabilityAnalysis a = []
         \<and> riskSummary a = ''Failed to perform AI analysis. Treat with extreme caution.'')"
proof -
  have a: "generateContent degraded_services
      (AssessmentRequest ''LibA'' ''https://github.com/a/LibA'' ''2026-11-03'') = Inr ''no answer''"
    by (simp add: degraded_services_def)
  have s: "JSON_parse_assessment degraded_services (cleanedText ''no answer'') = Inl (Error JsSyntaxError)"
    by (simp add: degraded_services_def)
  have b: "parseGeminiJson (JSON_parse_assessment degraded_services) ''no answer'' = Inr None"
    by (simp add: degraded_services_def parseGeminiJson_def)
  from fallback_assessment [OF a b] obtain x where
    x: "analyzeDependency degraded_services ''LibA'' ''https://github.com/a/LibA'' ''2026-11-03'' = Inr x"
      "riskLevel x = Critical" "vulnerabilityAnalysis x = []"
      "riskSummary x = ''Failed to perform AI analysis. Treat with extreme caution.''"
    by (elim exE conjE)
  show ?thesis
    by (intro conjI exI [of _ x]) (rule a s b x)+
qed

section \<open>Discovery: what degrades and what ends the run\<close>









section \<open>The throttled fetcher under concurrent calls\<close>

text \<open>
  A call that runs alone is spaced: its request is sent at once only when the delay has
  passed since \<open>lastRequestTime\<close>, and after its timer otherwise, which is not due before.
\<close>

lemma single_call_is_spaced:
  "throttledFetch_enter call now st = st1 \<Longrightarrow>
     (timers st = [] \<longrightarrow>
        (requests st1 = requests st @ [(call, now)] \<and> lastRequestTime st + GITHUB_API_DELAY \<le> now)
      \<or> (requests st1 = requests st
          \<and> (\<forall>t st2. throttledFetch_resume call t st1 = Some st2 \<longrightarrow>
                requests st2 = requests st @ [(call, t)]
                \<and> lastRequestTime st + GITHUB_API_DELAY \<le> t)))"
  by (auto simp: throttledFetch_enter_def throttledFetch_resume_def send_request_def Let_def
      split: if_splits)

text \<open>
  C2. Two consecutive requests of one fetcher must be at least 300 ms apart, also when
  the calls are made concurrently, and the reading and writing of \<open>lastRequestTime\<close>
  must be one indivisible step. In the source the \<open>await\<close> of the timer stands between the
  reading and the writing: the second and the third of three concurrent calls read the
  same \<open>lastRequestTime\<close>, wait the same time, and send their requests at the same time.
\<close>

theorem concurrent_calls_are_not_spaced:
  "fetcher_run idle_fetcher three_concurrent_calls =
     Some \<lparr>lastRequestTime = 1300, timers = [], requests = [(1, 1000), (2, 1300), (3, 1300)]\<rparr>"
  by (simp add: idle_fetcher_def three_concurrent_calls_def throttledFetch_enter_def
      throttledFetch_resume_def send_request_def GITHUB_API_DELAY_def)

section \<open>Sharing and mutation in \<open>updateNodeByPath\<close>\<close>

lemma alloc_array_simps:
  "next_addr (alloc_array h xs) = Suc (next_addr h)"
  "node_cells (alloc_array h xs) = node_cells h"
  "array_cells (alloc_array h xs) a = (if a = next_addr h then Some xs else array_cells h a)"
  by (simp_all add: alloc_array_def)

lemma alloc_node_simps:
  "next_addr (alloc_node h n) = Suc (next_addr h)"
  "array_cells (alloc_node h n) = array_cells h"
  "node_cells (alloc_node h n) a = (if a = next_addr h then Some n else node_cells h a)"
  by (simp_all add: alloc_node_def)

lemma array_store_simps:
  "next_addr (array_store h a i v) = next_addr h"
  "node_cells (array_store h a i v) = node_cells h"
  "array_cells (array_store h a i v) b =
     (if b = a then map_option (\<lambda>xs. xs[i := v]) (array_cells h a) else array_cells h b)"
  by (simp_all add: array_store_def split: option.splits)

lemma same_below_refl: "same_below N h h"
  by (simp add: same_below_def)

lemma same_below_trans: "same_below N h h1 \<Longrightarrow> same_below N h1 h2 \<Longrightarrow> same_below N h h2"
  by (simp add: same_below_def)

lemma closed_below_same: "closed_below N h \<Longrightarrow> same_below N h h' \<Longrightarrow> closed_below N h'"
  by (simp add: closed_below_def same_below_def)

text \<open>What lies below \<open>N\<close> is read the same in two heaps that agree below \<open>N\<close>.\<close>

lemma addr_at_same_below:
  "closed_below N h \<Longrightarrow> same_below N h h' \<Longrightarrow> arr < N \<Longrightarrow> addr_at h' arr q = addr_at h arr q"
proof (induction h arr q rule: addr_at.induct)
  case (1 h arr)
  then show ?case by simp
next
  case (2 h arr i)
  then show ?case by (simp add: same_below_def)
next
  case (3 h arr i v va)
  have arr: "array_cells h' arr = array_cells h arr"
    using "3.prems" by (simp add: same_below_def)
  show ?case
  proof (cases "array_cells h arr")
    case None
    with arr show ?thesis by simp
  next
    case (Some xs)
    show ?thesis
    proof (cases "js_nth xs (Some i)")
      case None
      with arr Some show ?thesis by simp
    next
      case r: (Some r)
      then have "r \<in> set xs" by (auto simp: js_nth_def split: if_splits)
      with "3.prems"(1,3) Some have rN: "r < N" by (auto simp: closed_below_def)
      then have nr: "node_cells h' r = node_cells h r"
        using "3.prems"(2) by (simp add: same_below_def)
      show ?thesis
      proof (cases "node_cells h r")
        case None
        with arr Some r nr show ?thesis by simp
      next
        case n: (Some n)
        with "3.prems"(1) rN have "o_dependencies n < N" by (auto simp: closed_below_def)
        from "3.IH" [OF Some r n "3.prems"(1,2) this] arr Some r nr n show ?thesis by simp
      qed
    qed
  qed
qed

text \<open>The walk changes the array it stands on and objects it has allocated, nothing else.\<close>

lemma update_walk_frame:
  "update_walk h cur parts upd = Inr h' \<Longrightarrow> cur < next_addr h \<Longrightarrow>
     next_addr h \<le> next_addr h'
     \<and> (\<forall>a<next_addr h. a \<noteq> cur \<longrightarrow> array_cells h' a = array_cells h a)
     \<and> (\<forall>a<next_addr h. node_cells h' a = node_cells h a)"
proof (induction h cur parts upd rule: update_walk.induct)
  case (1 h currentLevel updater)
  then show ?case by simp
next
  case (2 h currentLevel finalIndex updater)
  then show ?case
    by (auto simp: alloc_node_simps array_store_simps split: option.splits)
next
  case (3 h currentLevel index v va updater)
  from "3.prems"(1) obtain xs r node ds where
    xs: "array_cells h currentLevel = Some xs" and r: "js_nth xs index = Some r"
    and node: "node_cells h r = Some node" and ds: "array_cells h (o_dependencies node) = Some ds"
    by (auto split: option.splits)
  let ?newDeps = "next_addr h"
  let ?h1 = "alloc_array h ds"
  let ?newNode = "next_addr ?h1"
  let ?h2 = "alloc_node ?h1 (node\<lparr>o_dependencies := ?newDeps\<rparr>)"
  let ?h3 = "array_store ?h2 currentLevel (the index) ?newNode"
  from "3.prems"(1) xs r node ds
  have rest: "update_walk ?h3 ?newDeps (v # va) updater = Inr h'"
    by (simp add: Let_def)
  have lt: "?newDeps < next_addr ?h3"
    by (simp add: alloc_array_simps alloc_node_simps array_store_simps)
  from "3.IH" [OF xs r node ds refl refl refl refl refl rest lt]
  have a: "next_addr ?h3 \<le> next_addr h'"
    and b: "\<forall>a<next_addr ?h3. a \<noteq> ?newDeps \<longrightarrow> array_cells h' a = array_cells ?h3 a"
    and c: "\<forall>a<next_addr ?h3. node_cells h' a = node_cells ?h3 a"
    by blast+
  have n3: "next_addr ?h3 = Suc (Suc (next_addr h))"
    by (simp add: alloc_array_simps alloc_node_simps array_store_simps)
  show ?case
  proof (intro conjI allI impI)
    show "next_addr h \<le> next_addr h'" using a n3 by simp
  next
    fix a assume "a < next_addr h" "a \<noteq> currentLevel"
    then show "array_cells h' a = array_cells h a"
      using b n3 by (simp add: alloc_array_simps alloc_node_simps array_store_simps)
  next
    fix a assume "a < next_addr h"
    then show "node_cells h' a = node_cells h a"
      using c n3 by (simp add: alloc_array_simps alloc_node_simps array_store_simps)
  qed
qed

lemma js_nth_Some_iff: "js_nth xs i = Some x \<longleftrightarrow> (\<exists>k. i = Some k \<and> k < length xs \<and> x = xs ! k)"
  by (auto simp: js_nth_def split: option.splits)

lemma js_nth_update_other: "i \<noteq> k \<Longrightarrow> js_nth (xs[k := v]) (Some i) = js_nth xs (Some i)"
  by (simp add: js_nth_def)

lemma js_nth_update_same: "k < length xs \<Longrightarrow> js_nth (xs[k := v]) (Some k) = Some v"
  by (simp add: js_nth_def)

lemma closed_below_elem:
  "closed_below N h \<Longrightarrow> a < N \<Longrightarrow> array_cells h a = Some xs \<Longrightarrow> js_nth xs i = Some r \<Longrightarrow> r < N"
  by (auto simp: closed_below_def js_nth_Some_iff)

lemma closed_below_deps:
  "closed_below N h \<Longrightarrow> r < N \<Longrightarrow> node_cells h r = Some n \<Longrightarrow> o_dependencies n < N"
  by (auto simp: closed_below_def)

lemma addr_at_below:
  "closed_below N h \<Longrightarrow> arr < N \<Longrightarrow> addr_at h arr q = Some a \<Longrightarrow> a < N"
proof (induction h arr q rule: addr_at.induct)
  case (1 h arr)
  then show ?case by simp
next
  case (2 h arr i)
  then show ?case by (auto split: option.splits dest: closed_below_elem)
next
  case (3 h arr i v va)
  from "3.prems"(3) obtain xs r n where
    xs: "array_cells h arr = Some xs" and r: "js_nth xs (Some i) = Some r"
    and n: "node_cells h r = Some n" and rest: "addr_at h (o_dependencies n) (v # va) = Some a"
    by (auto split: option.splits)
  from closed_below_elem [OF "3.prems"(1,2) xs r] have "r < N" .
  from closed_below_deps [OF "3.prems"(1) this n] have "o_dependencies n < N" .
  from "3.IH" [OF xs r n "3.prems"(1) this rest] show ?case .
qed

lemma addr_at_sibling:
  assumes "closed_below N h" "same_below N h h'" "old < N"
    and xs: "array_cells h old = Some xs" and xs': "array_cells h' cur = Some xs'"
    and same: "js_nth xs' (Some i) = js_nth xs (Some i)"
  shows "addr_at h' cur (i # q) = addr_at h old (i # q)"
proof (cases q)
  case Nil
  with xs xs' same show ?thesis by simp
next
  case (Cons j q')
  show ?thesis
  proof (cases "js_nth xs (Some i)")
    case None
    with xs xs' same Cons show ?thesis by simp
  next
    case (Some r)
    from closed_below_elem [OF assms(1,3) xs Some] have rN: "r < N" .
    with assms(2) have nr: "node_cells h' r = node_cells h r" by (simp add: same_below_def)
    show ?thesis
    proof (cases "node_cells h r")
      case None
      with xs xs' same Cons Some nr show ?thesis by simp
    next
      case n: (Some n)
      from closed_below_deps [OF assms(1) rN n] have "o_dependencies n < N" .
      from addr_at_same_below [OF assms(1,2) this]
      have "addr_at h' (o_dependencies n) (j # q') = addr_at h (o_dependencies n) (j # q')" .
      with xs xs' same Cons Some nr n show ?thesis by simp
    qed
  qed
qed

lemma update_walk_same_below:
  assumes "update_walk h cur parts upd = Inr h'" "cur < next_addr h" "N \<le> cur"
  shows "same_below N h h'"
  using update_walk_frame [OF assms(1,2)] assms(2,3) by (simp add: same_below_def)

lemma descend_simps:
  "next_addr (descend h cur k node ds) = Suc (Suc (next_addr h))"
  "node_cells (descend h cur k node ds) a =
     (if a = Suc (next_addr h) then Some (node\<lparr>o_dependencies := next_addr h\<rparr>) else node_cells h a)"
  "cur < next_addr h \<Longrightarrow> array_cells (descend h cur k node ds) a =
     (if a = cur then map_option (\<lambda>xs. xs[k := Suc (next_addr h)]) (array_cells h cur)
      else if a = next_addr h then Some ds else array_cells h a)"
  by (auto simp: descend_def alloc_array_simps alloc_node_simps array_store_simps)

lemma update_walk_descend:
  assumes "update_walk h cur (index # v # va) upd = Inr h'"
  shows "\<exists>xs k node ds. index = Some k \<and> k < length xs \<and> array_cells h cur = Some xs
           \<and> node_cells h (xs ! k) = Some node \<and> array_cells h (o_dependencies node) = Some ds
           \<and> update_walk (descend h cur k node ds) (next_addr h) (v # va) upd = Inr h'"
proof -
  from assms obtain xs r node ds where
    xs: "array_cells h cur = Some xs" and r: "js_nth xs index = Some r"
    and node: "node_cells h r = Some node" and ds: "array_cells h (o_dependencies node) = Some ds"
    by (auto split: option.splits)
  from r obtain k where k: "index = Some k" "k < length xs" "r = xs ! k"
    by (auto simp: js_nth_Some_iff)
  from assms xs r node ds k
  have "update_walk (descend h cur k node ds) (next_addr h) (v # va) upd = Inr h'"
    by (simp add: Let_def descend_def alloc_array_simps)
  with xs k node ds show ?thesis by blast
qed

lemma same_below_descend: "cur < next_addr h \<Longrightarrow> N \<le> cur \<Longrightarrow> same_below N h (descend h cur k node ds)"
  by (simp add: same_below_def descend_simps)

text \<open>
  After one step down and the rest of the walk: the array the walk stood on holds the
  copy of the node at the index, the copy refers to the copy of the child list, and
  nothing below \<open>N\<close> has changed.
\<close>

lemma update_walk_after_descend:
  assumes rest: "update_walk (descend h cur k node ds) (next_addr h) parts upd = Inr h'"
    and cur: "cur < next_addr h" and N: "N \<le> cur" and xs: "array_cells h cur = Some xs"
  shows "array_cells h' cur = Some (xs[k := Suc (next_addr h)])"
    and "node_cells h' (Suc (next_addr h)) = Some (node\<lparr>o_dependencies := next_addr h\<rparr>)"
    and "same_below N h h'"
proof -
  let ?h3 = "descend h cur k node ds"
  have lt: "next_addr h < next_addr ?h3" by (simp add: descend_simps)
  note fr = update_walk_frame [OF rest lt]
  from fr cur xs show "array_cells h' cur = Some (xs[k := Suc (next_addr h)])"
    by (simp add: descend_simps)
  from fr show "node_cells h' (Suc (next_addr h)) = Some (node\<lparr>o_dependencies := next_addr h\<rparr>)"
    by (simp add: descend_simps)
  have "N \<le> next_addr h" using cur N by simp
  from update_walk_same_below [OF rest lt this] same_below_descend [OF cur N]
  show "same_below N h h'" by (rule same_below_trans [rotated])
qed

lemma update_walk_shares:
  "update_walk h cur parts upd = Inr h' \<Longrightarrow> closed_below N h \<Longrightarrow> N \<le> cur \<Longrightarrow>
   cur < next_addr h \<Longrightarrow> old < N \<Longrightarrow> array_cells h old = Some xs \<Longrightarrow>
   array_cells h cur = Some xs \<Longrightarrow> beside parts q \<Longrightarrow> addr_at h' cur q = addr_at h old q"
proof (induction h cur parts upd arbitrary: old xs q rule: update_walk.induct)
  case (1 h currentLevel updater)
  then show ?case by simp
next
  case (2 h cur finalIndex upd)
  from "2.prems"(8) obtain i q' where q: "q = i # q'" and i: "finalIndex \<noteq> Some i"
    by (cases q) auto
  note sb = update_walk_same_below [OF "2.prems"(1,4,3)]
  have "\<exists>xs'. array_cells h' cur = Some xs' \<and> js_nth xs' (Some i) = js_nth xs (Some i)"
  proof (cases "js_nth xs finalIndex")
    case None
    with "2.prems"(1,7) have "h' = h" by simp
    with "2.prems"(7) show ?thesis by simp
  next
    case (Some r)
    then obtain k where k: "finalIndex = Some k" by (auto simp: js_nth_Some_iff)
    from "2.prems"(1,7) Some obtain node where
      "h' = array_store (alloc_node h (upd node)) cur k (next_addr h)"
      using k by (auto split: option.splits)
    with "2.prems"(7) have "array_cells h' cur = Some (xs[k := next_addr h])"
      by (simp add: array_store_simps alloc_node_simps)
    with i k show ?thesis by (simp add: js_nth_update_other)
  qed
  then obtain xs' where "array_cells h' cur = Some xs'"
    "js_nth xs' (Some i) = js_nth xs (Some i)" by blast
  from addr_at_sibling [OF "2.prems"(2) sb "2.prems"(5,6) this] q show ?case by simp
next
  case (3 h cur index v va upd)
  from update_walk_descend [OF "3.prems"(1)] "3.prems"(7) obtain k node ds where
    k: "index = Some k" "k < length xs" and node: "node_cells h (xs ! k) = Some node"
    and ds: "array_cells h (o_dependencies node) = Some ds"
    and rest: "update_walk (descend h cur k node ds) (next_addr h) (v # va) upd = Inr h'"
    by auto
  let ?h3 = "descend h cur k node ds"
  note after = update_walk_after_descend [OF rest "3.prems"(4,3,7)]
  from "3.prems"(8) obtain i q' where q: "q = i # q'" by (cases q) auto
  show ?case
  proof (cases "i = k")
    case False
    then have "js_nth (xs[k := Suc (next_addr h)]) (Some i) = js_nth xs (Some i)"
      by (simp add: js_nth_update_other)
    from addr_at_sibling [OF "3.prems"(2) after(3) "3.prems"(5,6) after(1) this] q
    show ?thesis by simp
  next
    case True
    with "3.prems"(8) q k have bq: "beside (v # va) q'" by simp
    then obtain j q'' where q': "q' = j # q''" by (cases q') auto
    have r: "js_nth xs (Some k) = Some (xs ! k)" using k by (simp add: js_nth_def)
    from closed_below_elem [OF "3.prems"(2,5,6) r] have rN: "xs ! k < N" .
    from closed_below_deps [OF "3.prems"(2) rN node] have dN: "o_dependencies node < N" .
    have sb3: "same_below N h ?h3" by (rule same_below_descend [OF "3.prems"(4,3)])
    have c3: "closed_below N ?h3" by (rule closed_below_same [OF "3.prems"(2) sb3])
    have lt: "next_addr h < next_addr ?h3" by (simp add: descend_simps)
    have le: "N \<le> next_addr h" using "3.prems"(3,4) by simp
    have a1: "array_cells ?h3 (o_dependencies node) = Some ds"
      using sb3 dN ds by (simp add: same_below_def)
    have a2: "array_cells ?h3 (next_addr h) = Some ds"
      using "3.prems"(4) by (simp add: descend_simps)
    have xs0: "array_cells h cur = Some xs" by (rule "3.prems"(7))
    have r0: "js_nth xs index = Some (xs ! k)" using r k by simp
    have h3: "array_store (alloc_node (alloc_array h ds) (node\<lparr>o_dependencies := next_addr h\<rparr>))
                cur (the index) (next_addr (alloc_array h ds)) = ?h3"
      by (simp add: descend_def alloc_array_simps k)
    note ih = "3.IH" [OF xs0 r0 node ds refl refl refl refl refl, unfolded h3]
    have "addr_at h' (next_addr h) q' = addr_at ?h3 (o_dependencies node) q'"
      by (rule ih [OF rest c3 le lt dN a1 a2 bq])
    also have "\<dots> = addr_at h (o_dependencies node) q'"
      by (rule addr_at_same_below [OF "3.prems"(2) sb3 dN])
    finally have "addr_at h' (next_addr h) q' = addr_at h (o_dependencies node) q'" .
    moreover have "addr_at h' cur q = addr_at h' (next_addr h) q'"
      using q q' True after(1,2) k by (simp add: js_nth_update_same)
    moreover have "addr_at h old q = addr_at h (o_dependencies node) q'"
      using q q' True "3.prems"(6) r node by simp
    ultimately show ?thesis by simp
  qed
qed

lemma update_walk_below:
  "update_walk h cur parts upd = Inr h' \<Longrightarrow> closed_below N h \<Longrightarrow> N \<le> cur \<Longrightarrow>
   cur < next_addr h \<Longrightarrow> old < N \<Longrightarrow> array_cells h old = Some xs \<Longrightarrow>
   array_cells h cur = Some xs \<Longrightarrow> \<forall>m. o_dependencies (upd m) = o_dependencies m \<Longrightarrow>
   below parts q \<Longrightarrow> addr_at h' cur q = addr_at h old q"
proof (induction h cur parts upd arbitrary: old xs q rule: update_walk.induct)
  case (1 h cur upd)
  from "1.prems"(9) obtain i q' where q: "q = i # q'" by (cases q) auto
  from "1.prems"(1) have h': "h' = h" by simp
  from addr_at_sibling [OF "1.prems"(2) same_below_refl "1.prems"(5,6,7) refl] q h'
  show ?case by simp
next
  case (2 h cur finalIndex upd)
  from "2.prems"(9) obtain i j q'' where q: "q = i # j # q''" and i: "finalIndex = Some i"
    by (cases q; cases "tl q") auto
  note sb = update_walk_same_below [OF "2.prems"(1,4,3)]
  show ?case
  proof (cases "js_nth xs (Some i)")
    case None
    with "2.prems"(1,7) i have "h' = h" by simp
    with "2.prems"(6,7) None q show ?thesis by simp
  next
    case (Some r)
    then have il: "i < length xs" by (auto simp: js_nth_Some_iff)
    from closed_below_elem [OF "2.prems"(2,5,6) Some] have rN: "r < N" .
    from "2.prems"(1,7) Some i obtain node where node: "node_cells h r = Some node"
      and h': "h' = array_store (alloc_node h (upd node)) cur i (next_addr h)"
      by (auto split: option.splits)
    from closed_below_deps [OF "2.prems"(2) rN node] have dN: "o_dependencies node < N" .
    from h' "2.prems"(7) have a: "array_cells h' cur = Some (xs[i := next_addr h])"
      by (simp add: array_store_simps alloc_node_simps)
    from h' have n: "node_cells h' (next_addr h) = Some (upd node)"
      by (simp add: array_store_simps alloc_node_simps)
    have "addr_at h' cur q = addr_at h' (o_dependencies node) (j # q'')"
      using q a n il "2.prems"(8) by (simp add: js_nth_update_same)
    also have "\<dots> = addr_at h (o_dependencies node) (j # q'')"
      by (rule addr_at_same_below [OF "2.prems"(2) sb dN])
    also have "\<dots> = addr_at h old q"
      using q "2.prems"(6) Some node by simp
    finally show ?thesis .
  qed
next
  case (3 h cur index v va upd)
  from update_walk_descend [OF "3.prems"(1)] "3.prems"(7) obtain k node ds where
    k: "index = Some k" "k < length xs" and node: "node_cells h (xs ! k) = Some node"
    and ds: "array_cells h (o_dependencies node) = Some ds"
    and rest: "update_walk (descend h cur k node ds) (next_addr h) (v # va) upd = Inr h'"
    by auto
  let ?h3 = "descend h cur k node ds"
  note after = update_walk_after_descend [OF rest "3.prems"(4,3,7)]
  from "3.prems"(9) k obtain q' where q: "q = k # q'" and bq: "below (v # va) q'"
    by (cases q) auto
  from bq obtain j q'' where q': "q' = j # q''" by (cases q') auto
  have r: "js_nth xs (Some k) = Some (xs ! k)" using k by (simp add: js_nth_def)
  from closed_below_elem [OF "3.prems"(2,5,6) r] have rN: "xs ! k < N" .
  from closed_below_deps [OF "3.prems"(2) rN node] have dN: "o_dependencies node < N" .
  have sb3: "same_below N h ?h3" by (rule same_below_descend [OF "3.prems"(4,3)])
  have c3: "closed_below N ?h3" by (rule closed_below_same [OF "3.prems"(2) sb3])
  have lt: "next_addr h < next_addr ?h3" by (simp add: descend_simps)
  have le: "N \<le> next_addr h" using "3.prems"(3,4) by simp
  have a1: "array_cells ?h3 (o_dependencies node) = Some ds"
    using sb3 dN ds by (simp add: same_below_def)
  have a2: "array_cells ?h3 (next_addr h) = Some ds"
    using "3.prems"(4) by (simp add: descend_simps)
  have xs0: "array_cells h cur = Some xs" by (rule "3.prems"(7))
  have r0: "js_nth xs index = Some (xs ! k)" using r k by simp
  have h3: "array_store (alloc_node (alloc_array h ds) (node\<lparr>o_dependencies := next_addr h\<rparr>))
              cur (the index) (next_addr (alloc_array h ds)) = ?h3"
    by (simp add: descend_def alloc_array_simps k)
  note ih = "3.IH" [OF xs0 r0 node ds refl refl refl refl refl, unfolded h3]
  have "addr_at h' (next_addr h) q' = addr_at ?h3 (o_dependencies node) q'"
    by (rule ih [OF rest c3 le lt dN a1 a2 "3.prems"(8) bq])
  also have "\<dots> = addr_at h (o_dependencies node) q'"
    by (rule addr_at_same_below [OF "3.prems"(2) sb3 dN])
  finally have "addr_at h' (next_addr h) q' = addr_at h (o_dependencies node) q'" .
  moreover have "addr_at h' cur q = addr_at h' (next_addr h) q'"
    using q q' after(1,2) k by (simp add: js_nth_update_same)
  moreover have "addr_at h old q = addr_at h (o_dependencies node) q'"
    using q q' "3.prems"(6) r node by simp
  ultimately show ?case by simp
qed

text \<open>A path that resolves is walked to its end.\<close>

lemma update_walk_succeeds:
  "closed_below N h \<Longrightarrow> N \<le> cur \<Longrightarrow> cur < next_addr h \<Longrightarrow> old < N \<Longrightarrow>
   array_cells h old = Some xs \<Longrightarrow> array_cells h cur = Some xs \<Longrightarrow>
   addr_at h old pos = Some r \<Longrightarrow> node_cells h r = Some n \<Longrightarrow>
   \<exists>h'. update_walk h cur (map Some pos) upd = Inr h'"
proof (induction pos arbitrary: h cur old xs rule: induct_list012)
  case 1
  then show ?case by simp
next
  case (2 i)
  then show ?case by simp
next
  case (3 i j q)
  from "3.prems"(5,7) obtain r0 n0 where r0: "js_nth xs (Some i) = Some r0"
    and n0: "node_cells h r0 = Some n0" and rest: "addr_at h (o_dependencies n0) (j # q) = Some r"
    by (auto split: option.splits)
  from r0 have il: "i < length xs" and r0': "r0 = xs ! i" by (auto simp: js_nth_Some_iff)
  from rest obtain ds where ds: "array_cells h (o_dependencies n0) = Some ds"
    by (cases q) (auto split: option.splits)
  let ?h3 = "descend h cur i n0 ds"
  from closed_below_elem [OF "3.prems"(1,4,5) r0] have rN: "r0 < N" .
  from closed_below_deps [OF "3.prems"(1) rN n0] have dN: "o_dependencies n0 < N" .
  from addr_at_below [OF "3.prems"(1) dN rest] have rlt: "r < N" .
  have sb3: "same_below N h ?h3" by (rule same_below_descend [OF "3.prems"(3,2)])
  have c3: "closed_below N ?h3" by (rule closed_below_same [OF "3.prems"(1) sb3])
  have lt: "next_addr h < next_addr ?h3" by (simp add: descend_simps)
  have le: "N \<le> next_addr h" using "3.prems"(2,3) by simp
  have a1: "array_cells ?h3 (o_dependencies n0) = Some ds"
    using sb3 dN ds by (simp add: same_below_def)
  have a2: "array_cells ?h3 (next_addr h) = Some ds"
    using "3.prems"(3) by (simp add: descend_simps)
  have rest3: "addr_at ?h3 (o_dependencies n0) (j # q) = Some r"
    using addr_at_same_below [OF "3.prems"(1) sb3 dN, of "j # q"] rest by simp
  have n3: "node_cells ?h3 r = Some n"
    using sb3 rlt "3.prems"(8) by (simp add: same_below_def)
  from "3.IH"(2) [OF c3 le lt dN a1 a2 rest3 n3]
  obtain h' where "update_walk ?h3 (next_addr h) (map Some (j # q)) upd = Inr h'" by blast
  then have "update_walk h cur (map Some (i # j # q)) upd = Inr h'"
    using "3.prems"(6) r0 n0 ds by (simp add: Let_def descend_def alloc_array_simps)
  then show ?case by blast
qed

lemma closed_below_alloc_array:
  "closed_below (next_addr h) h \<Longrightarrow> closed_below (next_addr h) (alloc_array h xs)"
  by (erule closed_below_same) (simp add: same_below_def alloc_array_simps)

lemma updateNodeByParts_heap_shares:
  assumes closed: "closed_below (next_addr h) h" and nodes: "nodes < next_addr h"
    and r: "addr_at h nodes pos = Some r" and n: "node_cells h r = Some n"
  shows "\<exists>h'. updateNodeByParts_heap h nodes (map Some pos) upd = Inr (h', next_addr h)
           \<and> same_below (next_addr h) h h'
           \<and> (\<forall>q. beside (map Some pos) q \<longrightarrow> addr_at h' (next_addr h) q = addr_at h nodes q)
           \<and> ((\<forall>m. o_dependencies (upd m) = o_dependencies m) \<longrightarrow>
                (\<forall>q. below (map Some pos) q \<longrightarrow> addr_at h' (next_addr h) q = addr_at h nodes q))"
proof -
  from r obtain xs where xs: "array_cells h nodes = Some xs"
    by (cases "(h, nodes, pos)" rule: addr_at.cases) (auto split: option.splits)
  let ?N = "next_addr h"
  let ?h1 = "alloc_array h xs"
  have c1: "closed_below ?N ?h1" by (rule closed_below_alloc_array [OF closed])
  have lt: "?N < next_addr ?h1" by (simp add: alloc_array_simps)
  have a1: "array_cells ?h1 nodes = Some xs" using nodes xs by (simp add: alloc_array_simps)
  have a2: "array_cells ?h1 ?N = Some xs" by (simp add: alloc_array_simps)
  have sb1: "same_below ?N h ?h1" by (simp add: same_below_def alloc_array_simps)
  have r1: "addr_at ?h1 nodes pos = Some r"
    using addr_at_same_below [OF closed sb1 nodes, of pos] r by simp
  from addr_at_below [OF closed nodes r] have "r < ?N" .
  then have n1: "node_cells ?h1 r = Some n" using n by (simp add: alloc_array_simps)
  from update_walk_succeeds [OF c1 order_refl lt nodes a1 a2 r1 n1]
  obtain h' where walk: "update_walk ?h1 ?N (map Some pos) upd = Inr h'" by blast
  have run: "updateNodeByParts_heap h nodes (map Some pos) upd = Inr (h', ?N)"
    using xs walk by (simp add: updateNodeByParts_heap_def)
  have sb: "same_below ?N h h'"
    by (rule same_below_trans [OF sb1 update_walk_same_below [OF walk lt order_refl]])
  have old: "addr_at ?h1 nodes q = addr_at h nodes q" for q
    by (rule addr_at_same_below [OF closed sb1 nodes])
  have sh: "\<forall>q. beside (map Some pos) q \<longrightarrow> addr_at h' ?N q = addr_at h nodes q"
    using update_walk_shares [OF walk c1 order_refl lt nodes a1 a2] old by simp
  have bl: "(\<forall>m. o_dependencies (upd m) = o_dependencies m) \<longrightarrow>
      (\<forall>q. below (map Some pos) q \<longrightarrow> addr_at h' ?N q = addr_at h nodes q)"
    using update_walk_below [OF walk c1 order_refl lt nodes a1 a2] old by simp
  from run sb sh bl show ?thesis by blast
qed

text \<open>
  Claim C5. A heap is considered in which no object refers to an address that is not yet
  allocated, and a path that resolves: the position \<open>pos\<close> leads from the array
  \<open>nodes\<close> to a node object. Then \<open>updateNodeByPath\<close>, called with the path of that
  position and any updater, returns, and

  \<^item> what it returns is an array allocated by the call;
  \<^item> no array and no object that was there before the call is changed, so every position
    of the tree read from the old array \<open>nodes\<close> leads to the same object as before, and
    that object has the fields it had;
  \<^item> every position that leaves the path at some index, that is every position in a
    subtree beside the target or beside one of its ancestors, leads in the returned array
    to the very object (the same address) it leads to in \<open>nodes\<close>;
  \<^item> the same holds for the positions below the target when the updater keeps the
    \<open>dependencies\<close> reference of the node, as the updaters of \<open>handleToggleExpand\<close> and
    \<open>handleAnalyzeNode\<close> do. The updater of \<open>handleDiscoverChildren\<close> replaces the
    child list of the target, which the claim does not count among the untouched subtrees.
\<close>

theorem untouched_subtrees_are_shared:
  assumes closed: "closed_below (next_addr h) h" and nodes: "nodes < next_addr h"
    and r: "addr_at h nodes pos = Some r" and n: "node_cells h r = Some n"
  shows "\<exists>h' newNodes.
           updateNodeByPath_heap h nodes (js_join ''-'' (map string_of_nat pos)) updater
             = Inr (h', newNodes)
           \<and> next_addr h \<le> newNodes
           \<and> (\<forall>a<next_addr h. array_cells h' a = array_cells h a \<and> node_cells h' a = node_cells h a)
           \<and> (\<forall>q. addr_at h' nodes q = addr_at h nodes q)
           \<and> (\<forall>q a. addr_at h nodes q = Some a \<longrightarrow> a < next_addr h)
           \<and> (\<forall>q. beside (map Some pos) q \<longrightarrow> addr_at h' newNodes q = addr_at h nodes q)
           \<and> ((\<forall>m. o_dependencies (updater m) = o_dependencies m) \<longrightarrow>
                (\<forall>q. below (map Some pos) q \<longrightarrow> addr_at h' newNodes q = addr_at h nodes q))"
proof -
  from r have "pos \<noteq> []" by auto
  then have parts: "map Number_index (js_split CHR ''-'' (js_join ''-'' (map string_of_nat pos)))
      = map Some pos"
    by (simp add: js_split_join_positions Number_index_string_of_nat)
  from updateNodeByParts_heap_shares [OF closed nodes r n, of updater]
  obtain h' where run: "updateNodeByParts_heap h nodes (map Some pos) updater = Inr (h', next_addr h)"
    and sb: "same_below (next_addr h) h h'"
    and sh: "\<forall>q. beside (map Some pos) q \<longrightarrow> addr_at h' (next_addr h) q = addr_at h nodes q"
    and bl: "(\<forall>m. o_dependencies (updater m) = o_dependencies m) \<longrightarrow>
        (\<forall>q. below (map Some pos) q \<longrightarrow> addr_at h' (next_addr h) q = addr_at h nodes q)"
    by (elim exE conjE)
  have 1: "updateNodeByPath_heap h nodes (js_join ''-'' (map string_of_nat pos)) updater
      = Inr (h', next_addr h)"
    using run parts by (simp add: updateNodeByPath_heap_def)
  have 2: "\<forall>a<next_addr h. array_cells h' a = array_cells h a \<and> node_cells h' a = node_cells h a"
    using sb by (simp add: same_below_def)
  have 3: "\<forall>q. addr_at h' nodes q = addr_at h nodes q"
    using addr_at_same_below [OF closed sb nodes] by simp
  have 4: "\<forall>q a. addr_at h nodes q = Some a \<longrightarrow> a < next_addr h"
    using addr_at_below [OF closed nodes] by blast
  show ?thesis
    by (intro exI [of _ h'] exI [of _ "next_addr h"] conjI order_refl) (rule 1 2 3 4 sh bl)+
qed

lemma example_heap_closed: "closed_below (next_addr example_heap) example_heap"
  by (auto simp: closed_below_def example_heap_def example_obj_def split: if_splits)

lemma example_path: "js_join ''-'' (map string_of_nat [0, 0]) = ''0-0''"
  by (simp add: string_of_nat_0)

theorem untouched_subtrees_are_shared_witness:
  "closed_below (next_addr example_heap) example_heap
   \<and> 0 < next_addr example_heap
   \<and> addr_at example_heap 0 [0, 0] = Some 3
   \<and> node_cells example_heap 3 = Some (example_obj ''a/a'' ''0-0'' 1 False 5)
   \<and> beside (map Some [0, 0]) [0, 1]
   \<and> addr_at example_heap 0 [0, 1] = Some 4
   \<and> (\<exists>h' newNodes.
         updateNodeByPath_heap example_heap 0 ''0-0'' toggleExpand_obj = Inr (h', newNodes)
         \<and> 7 \<le> newNodes
         \<and> addr_at h' newNodes [0, 1] = Some 4
         \<and> node_cells h' 4 = Some (example_obj ''b/b'' ''0-1'' 1 False 6)
         \<and> array_cells h' 0 = Some [1])"
proof -
  have a: "0 < next_addr example_heap" by (simp add: example_heap_def)
  have b: "addr_at example_heap 0 [0, 0] = Some 3" by (simp add: example_heap_def example_obj_def js_nth_def)
  have c: "node_cells example_heap 3 = Some (example_obj ''a/a'' ''0-0'' 1 False 5)"
    by (simp add: example_heap_def)
  have d: "beside (map Some [0, 0]) [0, 1]" by simp
  have e: "addr_at example_heap 0 [0, 1] = Some 4"
    by (simp add: example_heap_def example_obj_def js_nth_def)
  have f: "node_cells example_heap 4 = Some (example_obj ''b/b'' ''0-1'' 1 False 6)"
    by (simp add: example_heap_def)
  have g: "array_cells example_heap 0 = Some [1]" by (simp add: example_heap_def)
  have N: "next_addr example_heap = 7" by (simp add: example_heap_def)
  from untouched_subtrees_are_shared [OF example_heap_closed a b c, of toggleExpand_obj]
  obtain h' newNodes where
    run: "updateNodeByPath_heap example_heap 0 (js_join ''-'' (map string_of_nat [0, 0]))
            toggleExpand_obj = Inr (h', newNodes)"
    and fresh: "next_addr example_heap \<le> newNodes"
    and same: "\<forall>a<next_addr example_heap. array_cells h' a = array_cells example_heap a
                 \<and> node_cells h' a = node_cells example_heap a"
    and sh: "\<forall>q. beside (map Some [0, 0]) q \<longrightarrow> addr_at h' newNodes q = addr_at example_heap 0 q"
    by (elim exE conjE)
  from run have 1: "updateNodeByPath_heap example_heap 0 ''0-0'' toggleExpand_obj = Inr (h', newNodes)"
    by (simp only: example_path)
  from fresh N have 2: "7 \<le> newNodes" by simp
  from sh [THEN spec, of "[0, 1]", THEN mp, OF d] e
  have 3: "addr_at h' newNodes [0, 1] = Some 4" by (simp only:)
  from same N f have 4: "node_cells h' 4 = Some (example_obj ''b/b'' ''0-1'' 1 False 6)" by simp
  from same N g have 5: "array_cells h' 0 = Some [1]" by simp
  show ?thesis
    by (intro conjI exI [of _ h'] exI [of _ newNodes])
      (rule example_heap_closed a b c d e 1 2 3 4 5)+
qed

end
